theory Spec2Isabelle
  imports Main "HOL-Library.Word" "HOL-Library.Char_ord" "HOL-Library.Sublist"
begin

unbundle bit_operations_syntax

section \<open>The custom-alphabet codec\<close>

text \<open>
  The package builds its codec with
  \<^verbatim>\<open>base64.NewEncoding("ABCDEFGHIJKLMNOPQRSTUVWXYZabcdefghijklmnopqrstuvwxyz0123456789-~")\<close>.
  \<open>NewEncoding\<close> keeps the 64 symbols as the table \<open>encode\<close>, sets the padding
  character to \<open>=\<close> (\<open>StdPadding\<close>), leaves \<open>strict\<close> off, and fills the 256-entry
  table \<open>decodeMap\<close> with \<open>0xFF\<close> before storing \<open>decodeMap[encode[i]] = i\<close> for
  every \<open>i\<close>. Go strings are byte sequences; a \<open>string\<close> here is a list of
  8-bit \<open>char\<close>s, and a \<open>[]byte\<close> is a list of 8-bit words.
\<close>

type_synonym byte = "8 word"

abbreviation LF :: char where "LF \<equiv> CHR 0x0A"
abbreviation CR :: char where "CR \<equiv> CHR 0x0D"

definition encodeI2P :: string where
  "encodeI2P = ''ABCDEFGHIJKLMNOPQRSTUVWXYZabcdefghijklmnopqrstuvwxyz0123456789-~''"

definition padChar :: char where
  "padChar = CHR ''=''"

definition decodeMap :: "char \<Rightarrow> byte" where
  "decodeMap = fold (\<lambda>i m. m(encodeI2P ! i := of_nat i)) [0..<64] (\<lambda>_. 0xFF)"

text \<open>
  \<open>enc v\<close> is \<open>enc.encode[v & 0x3F]\<close>. Go's \<open>uint\<close> is 64 bits wide on the
  platforms the tool is built for; only the low 24 bits are ever set.
\<close>

definition enc :: "64 word \<Rightarrow> char" where
  "enc v = encodeI2P ! unat (v AND 0x3F)"

text \<open>
  \<open>Encoding.Encode\<close>: every full group of three bytes gives four symbols; a final
  group of two bytes gives three symbols and one \<open>=\<close>, a final single byte two symbols
  and \<open>==\<close>.
\<close>

fun Encode :: "byte list \<Rightarrow> string" where
  "Encode (a # b # c # rest) =
     (let val = push_bit 16 (ucast a) OR push_bit 8 (ucast b) OR ucast c
      in [enc (drop_bit 18 val), enc (drop_bit 12 val), enc (drop_bit 6 val), enc val]
           @ Encode rest)"
| "Encode [a, b] =
     (let val = push_bit 16 (ucast a) OR push_bit 8 (ucast b)
      in [enc (drop_bit 18 val), enc (drop_bit 12 val), enc (drop_bit 6 val), padChar])"
| "Encode [a] =
     (let val = push_bit 16 (ucast a)
      in [enc (drop_bit 18 val), enc (drop_bit 12 val), padChar, padChar])"
| "Encode [] = []"

datatype decode_error = CorruptInputError

text \<open>
  The tail of \<open>decodeQuantum\<close>: the four 6-bit values of \<open>dbuf\<close> are packed into 24 bits
  and the first \<open>dlen - 1\<close> bytes of them are written. The encoding is not strict, so
  the bits that are dropped are not inspected.
\<close>

definition quantumBytes :: "byte list \<Rightarrow> nat \<Rightarrow> byte list" where
  "quantumBytes dbuf dlen =
     (let val = push_bit 18 (ucast (dbuf ! 0)) OR push_bit 12 (ucast (dbuf ! 1))
                OR push_bit 6 (ucast (dbuf ! 2)) OR ucast (dbuf ! 3) :: 64 word
      in take (dlen - 1) [ucast (drop_bit 16 val), ucast (drop_bit 8 val), ucast val])"

definition isNewline :: "char \<Rightarrow> bool" where
  "isNewline c \<longleftrightarrow> c = LF \<or> c = CR"

text \<open>
  \<open>decodeQuantum dbuf j src\<close> is the loop of \<open>Encoding.decodeQuantum\<close> at index \<open>j\<close> of
  the four-entry buffer \<open>dbuf\<close>, with \<open>src\<close> the input from position \<open>si\<close> on. It
  returns the bytes of the quantum and the input that is left. Line feeds and carriage
  returns are skipped wherever they stand. The offset carried by Go's
  \<open>CorruptInputError\<close> is left out, and so are the bytes Go hands back beside an
  error: \<open>fromI2PBase64\<close>'s only caller looks at nothing but whether the error is nil.
\<close>

fun decodeQuantum :: "byte list \<Rightarrow> nat \<Rightarrow> string \<Rightarrow> decode_error + (byte list \<times> string)" where
  "decodeQuantum dbuf j [] =
     (if j = 0 then Inr ([], []) else Inl CorruptInputError)"
| "decodeQuantum dbuf j (c # src) =
     (let out = decodeMap c in
      if out \<noteq> 0xFF then
        (if j + 1 < 4 then decodeQuantum (dbuf[j := out]) (j + 1) src
         else Inr (quantumBytes (dbuf[j := out]) 4, src))
      else if c = LF \<or> c = CR then decodeQuantum dbuf j src
      else if c \<noteq> padChar then Inl CorruptInputError
      else if j = 0 \<or> j = 1 then Inl CorruptInputError
      else if j = 2 then
        (case dropWhile isNewline src of
           [] \<Rightarrow> Inl CorruptInputError
         | c' # src' \<Rightarrow>
             if c' \<noteq> padChar then Inl CorruptInputError
             else if dropWhile isNewline src' \<noteq> [] then Inl CorruptInputError
             else Inr (quantumBytes dbuf j, []))
      else if dropWhile isNewline src \<noteq> [] then Inl CorruptInputError
      else Inr (quantumBytes dbuf j, []))"

lemma decodeQuantum_rest_le:
  "decodeQuantum dbuf j src = Inr (bs, rest) \<Longrightarrow> length rest \<le> length src"
proof (induction src arbitrary: dbuf j)
  case Nil
  then show ?case by (simp split: if_splits)
next
  case (Cons c src)
  then show ?case
    by (fastforce simp: Let_def split: if_splits list.splits)
qed

text \<open>
  \<open>Encoding.Decode\<close>: quanta are decoded until the input is used up; the first error
  ends the loop. (Go's two fast paths for 8 and 4 valid symbols at once compute what
  \<open>decodeQuantum\<close> computes on them and are not modelled apart.)
\<close>

function Decode :: "string \<Rightarrow> decode_error + byte list" where
  "Decode src =
     (if src = [] then Inr []
      else case decodeQuantum [0, 0, 0, 0] 0 src of
             Inl e \<Rightarrow> Inl e
           | Inr (bs, rest) \<Rightarrow>
               (case Decode rest of Inl e \<Rightarrow> Inl e | Inr bs' \<Rightarrow> Inr (bs @ bs')))"
  by pat_completeness auto
termination
proof (relation "measure length")
  show "wf (measure length)" by simp
next
  fix src :: string and x2 :: "byte list \<times> string" and bs rest
  assume ne: "src \<noteq> []"
    and q: "decodeQuantum [0, 0, 0, 0] 0 src = Inr x2"
    and x2: "(bs, rest) = x2"
  obtain c cs where src: "src = c # cs" using ne by (cases src) auto
  have "decodeQuantum [0, 0, 0, 0] 0 (c # cs) = Inr (bs, rest)"
    using q x2 src by simp
  then have "length rest \<le> length cs"
    by (auto simp: Let_def split: if_splits list.splits dest: decodeQuantum_rest_le)
  then show "(rest, src) \<in> measure length" using src by simp
qed

declare Decode.simps [simp del]

text \<open>The two wrappers of the package, lines 256 to 263.\<close>

definition toI2PBase64 :: "byte list \<Rightarrow> string" where
  "toI2PBase64 data = Encode data"

definition fromI2PBase64 :: "string \<Rightarrow> decode_error + byte list" where
  "fromI2PBase64 i2pBase64 = Decode i2pBase64"

section \<open>Library text operations\<close>

text \<open>
  \<open>strings.TrimSpace\<close> removes every leading and every trailing rune for which
  \<open>unicode.IsSpace\<close> holds: U+0009 to U+000D, U+0020, U+0085, U+00A0, U+1680,
  U+2000 to U+200A, U+2028, U+2029, U+202F, U+205F and U+3000. A Go string is a byte
  sequence read as UTF-8; a rune decodes to one of these code points exactly when its
  bytes are the (shortest-form) UTF-8 encoding of that code point, and every byte
  sequence that is not valid UTF-8 decodes to U+FFFD, which is no space. So trimming
  strips, as long as there is one, a leading (then a trailing) occurrence of one of the
  byte sequences of \<open>spaceRunes\<close>.
\<close>

definition spaceRunes :: "string list" where
  "spaceRunes =
     [[CHR 0x09], [CHR 0x0A], [CHR 0x0B], [CHR 0x0C], [CHR 0x0D], [CHR 0x20],
      [CHR 0xC2, CHR 0x85], [CHR 0xC2, CHR 0xA0],
      [CHR 0xE1, CHR 0x9A, CHR 0x80],
      [CHR 0xE2, CHR 0x80, CHR 0x80], [CHR 0xE2, CHR 0x80, CHR 0x81],
      [CHR 0xE2, CHR 0x80, CHR 0x82], [CHR 0xE2, CHR 0x80, CHR 0x83],
      [CHR 0xE2, CHR 0x80, CHR 0x84], [CHR 0xE2, CHR 0x80, CHR 0x85],
      [CHR 0xE2, CHR 0x80, CHR 0x86], [CHR 0xE2, CHR 0x80, CHR 0x87],
      [CHR 0xE2, CHR 0x80, CHR 0x88], [CHR 0xE2, CHR 0x80, CHR 0x89],
      [CHR 0xE2, CHR 0x80, CHR 0x8A],
      [CHR 0xE2, CHR 0x80, CHR 0xA8], [CHR 0xE2, CHR 0x80, CHR 0xA9],
      [CHR 0xE2, CHR 0x80, CHR 0xAF], [CHR 0xE2, CHR 0x81, CHR 0x9F],
      [CHR 0xE3, CHR 0x80, CHR 0x80]]"

lemma spaceRunes_nonempty: "w \<in> set spaceRunes \<Longrightarrow> w \<noteq> []"
  by (auto simp: spaceRunes_def)

function TrimLeftSpace :: "string \<Rightarrow> string" where
  "TrimLeftSpace s =
     (case find (\<lambda>w. prefix w s) spaceRunes of
        None \<Rightarrow> s
      | Some w \<Rightarrow> TrimLeftSpace (drop (length w) s))"
  by pat_completeness auto
termination
proof (relation "measure length")
  show "wf (measure length)" by simp
next
  fix s w :: string
  assume "find (\<lambda>w. prefix w s) spaceRunes = Some w"
  then have "w \<in> set spaceRunes" "prefix w s"
    by (auto simp: find_Some_iff)
  then have "w \<noteq> []" "length w \<le> length s"
    by (auto dest: spaceRunes_nonempty simp: prefix_length_le)
  then show "(drop (length w) s, s) \<in> measure length"
    by (cases w) auto
qed

function TrimRightSpace :: "string \<Rightarrow> string" where
  "TrimRightSpace s =
     (case find (\<lambda>w. suffix w s) spaceRunes of
        None \<Rightarrow> s
      | Some w \<Rightarrow> TrimRightSpace (take (length s - length w) s))"
  by pat_completeness auto
termination
proof (relation "measure length")
  show "wf (measure length)" by simp
next
  fix s w :: string
  assume "find (\<lambda>w. suffix w s) spaceRunes = Some w"
  then have "w \<in> set spaceRunes" "suffix w s"
    by (auto simp: find_Some_iff)
  then have "w \<noteq> []" "length w \<le> length s"
    by (auto dest: spaceRunes_nonempty simp: suffix_length_le)
  then show "(take (length s - length w) s, s) \<in> measure length"
    by (cases w) auto
qed

declare TrimLeftSpace.simps [simp del] TrimRightSpace.simps [simp del]

definition TrimSpace :: "string \<Rightarrow> string" where
  "TrimSpace s = TrimRightSpace (TrimLeftSpace s)"

text \<open>
  \<open>strings.Split(s, "\n")\<close>: the pieces of \<open>s\<close> between line feeds; a string
  without a line feed, the empty one included, is the single piece.
\<close>

function Split_LF :: "string \<Rightarrow> string list" where
  "Split_LF s =
     (if LF \<in> set s
      then takeWhile (\<lambda>c. c \<noteq> LF) s # Split_LF (tl (dropWhile (\<lambda>c. c \<noteq> LF) s))
      else [s])"
  by pat_completeness auto
termination
proof (relation "measure length")
  show "wf (measure length)" by simp
next
  fix s :: string
  assume "LF \<in> set s"
  then have "dropWhile (\<lambda>c. c \<noteq> LF) s \<noteq> []" by simp
  moreover have "length (dropWhile (\<lambda>c. c \<noteq> LF) s) \<le> length s"
    by (rule length_dropWhile_le)
  ultimately show "(tl (dropWhile (\<lambda>c. c \<noteq> LF) s), s) \<in> measure length"
    by (cases "dropWhile (\<lambda>c. c \<noteq> LF) s") auto
qed

declare Split_LF.simps [simp del]

section \<open>Format detection\<close>

text \<open>
  The character test of \<open>isI2PBase64Format\<close> (lines 241 to 248). The source ranges
  over the runes of the string; every accepted rune is ASCII, an ASCII byte is always a
  rune of its own, and a byte from \<open>0x80\<close> on belongs to a rune from U+0080 on or to
  U+FFFD, so the loop accepts the string exactly when it accepts each byte.
\<close>

definition isI2PBase64Rune :: "char \<Rightarrow> bool" where
  "isI2PBase64Rune r \<longleftrightarrow>
     (r \<ge> CHR ''A'' \<and> r \<le> CHR ''Z'') \<or>
     (r \<ge> CHR ''a'' \<and> r \<le> CHR ''z'') \<or>
     (r \<ge> CHR ''0'' \<and> r \<le> CHR ''9'') \<or>
     r = CHR ''-'' \<or> r = CHR ''~'' \<or> r = CHR ''=''"

definition isI2PBase64Format :: "string \<Rightarrow> bool" where
  "isI2PBase64Format data =
     (let data = TrimSpace data in
      if data = [] then False
      else if \<not> list_all isI2PBase64Rune data then False
      else (case fromI2PBase64 data of Inl err \<Rightarrow> False | Inr _ \<Rightarrow> True))"

definition IsCorrectFormat :: "string \<Rightarrow> bool" where
  "IsCorrectFormat data =
     (let lines = Split_LF (TrimSpace data) in
      if length lines \<noteq> 2 then False
      else isI2PBase64Format (lines ! 0) \<and> isI2PBase64Format (lines ! 1))"

section \<open>The conversion\<close>

text \<open>
  \<open>ConvertKeyFile\<close> without its file handling: the argument is the content read from
  the input path, the result the content written to the output path, or the error
  returned before anything is written. Failures of \<open>os.ReadFile\<close>, \<open>os.MkdirAll\<close> and
  \<open>os.WriteFile\<close> are not part of the model. \<open>IndexOutOfRange\<close> stands for the panic
  of \<open>lines[0]\<close> on an empty slice.
\<close>

datatype convert_error = KeyTooShort | IndexOutOfRange

definition bytesOf :: "string \<Rightarrow> byte list" where
  "bytesOf s = map of_char s"

definition ConvertKeyFile :: "string \<Rightarrow> convert_error + string" where
  "ConvertKeyFile data =
     (if IsCorrectFormat data then Inr data
      else
        let keyData = data in
        if isI2PBase64Format keyData then
          (case Split_LF keyData of
             [] \<Rightarrow> Inl IndexOutOfRange
           | completeKey # _ \<Rightarrow>
               if length completeKey \<ge> 516 then
                 (let publicPart = take 516 completeKey
                  in Inr (publicPart @ [LF] @ completeKey))
               else
                 (let completeKey = toI2PBase64 (bytesOf data) in
                  if length completeKey \<ge> 516 then
                    (let publicPart = take 516 completeKey
                     in Inr (publicPart @ [LF] @ completeKey))
                  else Inl KeyTooShort))
        else
          (let completeKey = toI2PBase64 (bytesOf data) in
           if length completeKey \<ge> 516 then
             (let publicPart = take 516 completeKey
              in Inr (publicPart @ [LF] @ completeKey))
           else Inl KeyTooShort))"

section \<open>The specification's wording of the two predicates\<close>

text \<open>
  These two definitions follow the specification's sentences, not the code; the
  theorems below compare them with the functions above.

  The validator, in the specification's words: trim the content, split it on line
  feeds, require exactly two segments, and require of each segment that, once trimmed
  itself, it is non-empty, consists of the characters \<open>A-Z a-z 0-9 - ~ =\<close> only and
  decodes without error.
\<close>

definition acceptedSet :: "char set" where
  "acceptedSet =
     set ''ABCDEFGHIJKLMNOPQRSTUVWXYZabcdefghijklmnopqrstuvwxyz0123456789-~=''"

definition segment_ok :: "string \<Rightarrow> bool" where
  "segment_ok seg =
     (let t = TrimSpace seg
      in t \<noteq> [] \<and> list_all (\<lambda>c. c \<in> acceptedSet) t \<and> \<not> isl (fromI2PBase64 t))"

definition is_canonical_spec :: "string \<Rightarrow> bool" where
  "is_canonical_spec s =
     (case Split_LF (TrimSpace s) of
        [seg1, seg2] \<Rightarrow> segment_ok seg1 \<and> segment_ok seg2
      | _ \<Rightarrow> False)"

text \<open>
  Decodable text, in the specification's words: every symbol is one of the 64 of the
  alphabet or \<open>=\<close>, the length is a padded length (a multiple of four), and padding
  stands nowhere but at the end. Padding at the end is one \<open>=\<close> or two: from the first
  \<open>=\<close> on, the text is empty (no padding), \<open>=\<close> or \<open>==\<close>. A run of three or more
  \<open>=\<close>, and an \<open>=\<close> with any other symbol after it, are not padding at the end.
\<close>

definition well_padded :: "string \<Rightarrow> bool" where
  "well_padded t =
     (list_all (\<lambda>c. c \<in> set encodeI2P \<or> c = padChar) t
      \<and> length t mod 4 = 0
      \<and> dropWhile (\<lambda>c. c \<noteq> padChar) t \<in> {[], [padChar], [padChar, padChar]})"

section \<open>Bit-level facts about a quantum\<close>

text \<open>
  Three bytes are packed into 24 bits and cut into four 6-bit values; packing the four
  values again gives the same 24 bits, from which the three bytes are read back.
\<close>

lemma mask6: "(0x3F :: 64 word) = mask 6"
  by (simp add: mask_eq_exp_minus_1)

lemma bit_byte_bound: "bit (x :: byte) n \<Longrightarrow> n < 8"
  by (auto dest: bit_imp_le_length)

lemma split24: "(n::nat) < 6 \<or> (\<exists>m<6. n = 6 + m) \<or> (\<exists>m<6. n = 12 + m) \<or> (\<exists>m<6. n = 18 + m) \<or> (\<exists>m. n = 24 + m)"
  by presburger

lemma bit_byte_high: "8 \<le> k \<Longrightarrow> \<not> bit (x :: byte) k"
  using bit_byte_bound [of x k] by auto

lemma sextets_of_triple:
  fixes a b c :: byte
  defines "val \<equiv> push_bit 16 (ucast a) OR push_bit 8 (ucast b) OR ucast c :: 64 word"
  shows "push_bit 18 (ucast (ucast (drop_bit 18 val AND 0x3F) :: byte))
          OR push_bit 12 (ucast (ucast (drop_bit 12 val AND 0x3F) :: byte))
          OR push_bit 6 (ucast (ucast (drop_bit 6 val AND 0x3F) :: byte))
          OR ucast (ucast (val AND 0x3F) :: byte) = val" (is "?lhs = _")
proof (rule bit_word_eqI)
  fix n :: nat
  assume "n < LENGTH(64)"
  from split24 [of n] consider "n < 6" | m where "m < 6" "n = 6 + m" | m where "m < 6" "n = 12 + m"
    | m where "m < 6" "n = 18 + m" | m where "n = 24 + m"
    by blast
  then show "bit ?lhs n = bit val n"
  proof cases
    case 1
    then show ?thesis unfolding val_def mask6 by (simp add: bit_simps)
  next
    case 2
    then show ?thesis unfolding val_def mask6 by (simp add: bit_simps)
  next
    case 3
    then show ?thesis unfolding val_def mask6 by (simp add: bit_simps)
  next
    case 4
    then show ?thesis unfolding val_def mask6 by (simp add: bit_simps)
  next
    case 5
    then show ?thesis unfolding val_def mask6 by (simp add: bit_simps bit_byte_high)
  qed
qed

lemma bytes_of_val:
  fixes a b c :: byte
  defines "val \<equiv> push_bit 16 (ucast a) OR push_bit 8 (ucast b) OR ucast c :: 64 word"
  shows "(ucast (drop_bit 16 val) :: byte) = a" "(ucast (drop_bit 8 val) :: byte) = b" "(ucast val :: byte) = c"
  unfolding val_def
  by (rule bit_word_eqI; simp add: bit_simps bit_byte_high)+

section \<open>The decoder on well-formed groups\<close>

lemma decodeMap_valid_iff: "decodeMap c \<noteq> 0xFF \<longleftrightarrow> c \<in> set encodeI2P"
proof -
  have "\<forall>c::char. decodeMap c \<noteq> 0xFF \<longleftrightarrow> c \<in> set encodeI2P" by code_simp
  then show ?thesis by blast
qed

lemma decodeMap_encode_nth: "i < 64 \<Longrightarrow> decodeMap (encodeI2P ! i) = of_nat i"
proof -
  have "\<forall>i<64::nat. decodeMap (encodeI2P ! i) = of_nat i" by code_simp
  then show "i < 64 \<Longrightarrow> decodeMap (encodeI2P ! i) = of_nat i" by blast
qed

lemma length_encodeI2P: "length encodeI2P = 64"
  by (simp add: encodeI2P_def)

lemma unat_and_63: "unat ((v :: 64 word) AND 0x3F) < 64"
proof -
  have "v AND 0x3F \<le> 0x3F" by (rule word_and_le1)
  then have "unat (v AND 0x3F) \<le> unat (0x3F :: 64 word)" by (simp only: word_le_nat_alt)
  then show ?thesis by simp
qed

lemma enc_in_alphabet: "enc v \<in> set encodeI2P"
  unfolding enc_def using unat_and_63 [of v] by (simp add: length_encodeI2P)

lemma decodeMap_enc: "decodeMap (enc v) = ucast (v AND 0x3F)"
  unfolding enc_def using unat_and_63 [of v]
  by (simp add: decodeMap_encode_nth)

lemma special_not_in_alphabet:
  "padChar \<notin> set encodeI2P" "LF \<notin> set encodeI2P" "CR \<notin> set encodeI2P"
  by (simp_all add: padChar_def encodeI2P_def)

lemma padChar_not_newline: "padChar \<noteq> LF" "padChar \<noteq> CR" "\<not> isNewline padChar"
  by (simp_all add: padChar_def isNewline_def)

lemma dq_symbol:
  assumes "c \<in> set encodeI2P"
  shows "decodeQuantum dbuf j (c # src) =
         (if j < 3 then decodeQuantum (dbuf[j := decodeMap c]) (Suc j) src
          else Inr (quantumBytes (dbuf[j := decodeMap c]) 4, src))"
  using assms by (simp add: decodeMap_valid_iff Let_def)

lemma dq_newline:
  assumes "isNewline c"
  shows "decodeQuantum dbuf j (c # src) = decodeQuantum dbuf j src"
proof -
  have "c \<notin> set encodeI2P" using assms special_not_in_alphabet by (auto simp: isNewline_def)
  then have "decodeMap c = 0xFF" using decodeMap_valid_iff by blast
  then show ?thesis using assms by (simp add: isNewline_def)
qed

lemma dq_pad:
  "decodeQuantum dbuf j (padChar # src) =
     (if j = 0 \<or> j = 1 then Inl CorruptInputError
      else if j = 2 then
        (case dropWhile isNewline src of
           [] \<Rightarrow> Inl CorruptInputError
         | c' # src' \<Rightarrow>
             if c' \<noteq> padChar then Inl CorruptInputError
             else if dropWhile isNewline src' \<noteq> [] then Inl CorruptInputError
             else Inr (quantumBytes dbuf j, []))
      else if dropWhile isNewline src \<noteq> [] then Inl CorruptInputError
      else Inr (quantumBytes dbuf j, []))"
proof -
  have "decodeMap padChar = 0xFF"
    using decodeMap_valid_iff special_not_in_alphabet(1) by blast
  then show ?thesis by (simp add: padChar_not_newline)
qed

lemma dq_other:
  assumes "c \<notin> set encodeI2P" "\<not> isNewline c" "c \<noteq> padChar"
  shows "decodeQuantum dbuf j (c # src) = Inl CorruptInputError"
proof -
  have "decodeMap c = 0xFF" using assms(1) decodeMap_valid_iff by blast
  then show ?thesis using assms by (simp add: isNewline_def)
qed

lemma dq_four:
  assumes "c0 \<in> set encodeI2P" "c1 \<in> set encodeI2P" "c2 \<in> set encodeI2P" "c3 \<in> set encodeI2P"
  shows "decodeQuantum [0, 0, 0, 0] 0 (c0 # c1 # c2 # c3 # src) =
         Inr (quantumBytes [decodeMap c0, decodeMap c1, decodeMap c2, decodeMap c3] 4, src)"
  using assms by (simp add: dq_symbol del: decodeQuantum.simps)

lemma Decode_four:
  assumes "c0 \<in> set encodeI2P" "c1 \<in> set encodeI2P" "c2 \<in> set encodeI2P" "c3 \<in> set encodeI2P"
  shows "Decode (c0 # c1 # c2 # c3 # src) =
         (case Decode src of Inl e \<Rightarrow> Inl e
          | Inr bs' \<Rightarrow> Inr (quantumBytes [decodeMap c0, decodeMap c1, decodeMap c2, decodeMap c3] 4 @ bs'))"
  by (subst Decode.simps) (simp add: dq_four [OF assms] del: decodeQuantum.simps)

lemma Decode_Nil: "Decode [] = Inr []"
  by (simp add: Decode.simps)

lemma Decode_pad1:
  assumes "c0 \<in> set encodeI2P" "c1 \<in> set encodeI2P" "c2 \<in> set encodeI2P"
  shows "Decode [c0, c1, c2, padChar] = Inr (quantumBytes [decodeMap c0, decodeMap c1, decodeMap c2, 0] 3)"
  using assms
  by (subst Decode.simps)
     (simp add: dq_symbol dq_pad padChar_not_newline Decode_Nil numeral_2_eq_2 numeral_3_eq_3 del: decodeQuantum.simps)

lemma Decode_pad2:
  assumes "c0 \<in> set encodeI2P" "c1 \<in> set encodeI2P"
  shows "Decode [c0, c1, padChar, padChar] = Inr (quantumBytes [decodeMap c0, decodeMap c1, 0, 0] 2)"
  using assms
  by (subst Decode.simps)
     (simp add: dq_symbol dq_pad padChar_not_newline Decode_Nil numeral_2_eq_2 numeral_3_eq_3 del: decodeQuantum.simps)

lemma low_sextet_zero:
  fixes a b :: byte
  shows "(ucast ((push_bit 16 (ucast a) OR push_bit 8 (ucast b) :: 64 word) AND 0x3F) :: byte) = 0"
  unfolding mask6 by (rule bit_word_eqI) (simp add: bit_simps)

lemma mid_sextet_zero:
  fixes a :: byte
  shows "(ucast (drop_bit 6 (push_bit 16 (ucast a) :: 64 word) AND 0x3F) :: byte) = 0"
  unfolding mask6 by (rule bit_word_eqI) (simp add: bit_simps)

lemma quantumBytes_4:
  "quantumBytes [d0, d1, d2, d3] 4 =
     [ucast (drop_bit 16 (push_bit 18 (ucast d0) OR push_bit 12 (ucast d1)
                          OR push_bit 6 (ucast d2) OR ucast d3 :: 64 word)),
      ucast (drop_bit 8 (push_bit 18 (ucast d0) OR push_bit 12 (ucast d1)
                         OR push_bit 6 (ucast d2) OR ucast d3 :: 64 word)),
      ucast (push_bit 18 (ucast d0) OR push_bit 12 (ucast d1)
             OR push_bit 6 (ucast d2) OR ucast d3 :: 64 word)]"
  unfolding quantumBytes_def Let_def by simp

lemma quantumBytes_3:
  "quantumBytes [d0, d1, d2, d3] 3 =
     [ucast (drop_bit 16 (push_bit 18 (ucast d0) OR push_bit 12 (ucast d1)
                          OR push_bit 6 (ucast d2) OR ucast d3 :: 64 word)),
      ucast (drop_bit 8 (push_bit 18 (ucast d0) OR push_bit 12 (ucast d1)
                         OR push_bit 6 (ucast d2) OR ucast d3 :: 64 word))]"
  unfolding quantumBytes_def Let_def by simp

lemma quantumBytes_2:
  "quantumBytes [d0, d1, d2, d3] 2 =
     [ucast (drop_bit 16 (push_bit 18 (ucast d0) OR push_bit 12 (ucast d1)
                          OR push_bit 6 (ucast d2) OR ucast d3 :: 64 word))]"
  unfolding quantumBytes_def Let_def by simp

lemma quantum_full:
  fixes a b c :: byte
  defines "val \<equiv> push_bit 16 (ucast a) OR push_bit 8 (ucast b) OR ucast c :: 64 word"
  shows "quantumBytes [decodeMap (enc (drop_bit 18 val)), decodeMap (enc (drop_bit 12 val)),
                       decodeMap (enc (drop_bit 6 val)), decodeMap (enc val)] 4 = [a, b, c]"
  unfolding quantumBytes_4 decodeMap_enc
  unfolding sextets_of_triple [of a b c, folded val_def]
  unfolding bytes_of_val [of a b c, folded val_def] ..

lemma quantum_two:
  fixes a b :: byte
  defines "val \<equiv> push_bit 16 (ucast a) OR push_bit 8 (ucast b) :: 64 word"
  shows "quantumBytes [decodeMap (enc (drop_bit 18 val)), decodeMap (enc (drop_bit 12 val)),
                       decodeMap (enc (drop_bit 6 val)), 0] 3 = [a, b]"
proof -
  have val: "val = push_bit 16 (ucast a) OR push_bit 8 (ucast b) OR ucast (0 :: byte)"
    by (simp add: val_def)
  have low: "(ucast (val AND 0x3F) :: byte) = 0"
    unfolding val_def by (rule low_sextet_zero)
  have "push_bit 18 (ucast (ucast (drop_bit 18 val AND 0x3F) :: byte))
          OR push_bit 12 (ucast (ucast (drop_bit 12 val AND 0x3F) :: byte))
          OR push_bit 6 (ucast (ucast (drop_bit 6 val AND 0x3F) :: byte))
          OR ucast (ucast (val AND 0x3F) :: byte) = val"
    unfolding val by (rule sextets_of_triple)
  then have pack: "push_bit 18 (ucast (ucast (drop_bit 18 val AND 0x3F) :: byte))
          OR push_bit 12 (ucast (ucast (drop_bit 12 val AND 0x3F) :: byte))
          OR push_bit 6 (ucast (ucast (drop_bit 6 val AND 0x3F) :: byte))
          OR ucast (0 :: byte) = val"
    unfolding low .
  have bytes: "(ucast (drop_bit 16 val) :: byte) = a" "(ucast (drop_bit 8 val) :: byte) = b"
    unfolding val by (rule bytes_of_val)+
  show ?thesis
    unfolding quantumBytes_3 decodeMap_enc pack bytes ..
qed

lemma quantum_one:
  fixes a :: byte
  defines "val \<equiv> push_bit 16 (ucast a) :: 64 word"
  shows "quantumBytes [decodeMap (enc (drop_bit 18 val)), decodeMap (enc (drop_bit 12 val)), 0, 0] 2
         = [a]"
proof -
  have val: "val = push_bit 16 (ucast a) OR push_bit 8 (ucast (0 :: byte)) OR ucast (0 :: byte)"
    by (simp add: val_def)
  have low: "(ucast (val AND 0x3F) :: byte) = 0"
    using low_sextet_zero [of a 0] by (simp add: val_def)
  have mid: "(ucast (drop_bit 6 val AND 0x3F) :: byte) = 0"
    unfolding val_def by (rule mid_sextet_zero)
  have "push_bit 18 (ucast (ucast (drop_bit 18 val AND 0x3F) :: byte))
          OR push_bit 12 (ucast (ucast (drop_bit 12 val AND 0x3F) :: byte))
          OR push_bit 6 (ucast (ucast (drop_bit 6 val AND 0x3F) :: byte))
          OR ucast (ucast (val AND 0x3F) :: byte) = val"
    unfolding val by (rule sextets_of_triple)
  then have pack: "push_bit 18 (ucast (ucast (drop_bit 18 val AND 0x3F) :: byte))
          OR push_bit 12 (ucast (ucast (drop_bit 12 val AND 0x3F) :: byte))
          OR push_bit 6 (ucast (0 :: byte))
          OR ucast (0 :: byte) = val"
    unfolding low mid .
  have bytes: "(ucast (drop_bit 16 val) :: byte) = a"
    unfolding val by (rule bytes_of_val)
  show ?thesis
    unfolding quantumBytes_2 decodeMap_enc pack bytes ..
qed

lemma Encode_3:
  "Encode (a # b # c # rest) =
     [enc (drop_bit 18 (push_bit 16 (ucast a) OR push_bit 8 (ucast b) OR ucast c)),
      enc (drop_bit 12 (push_bit 16 (ucast a) OR push_bit 8 (ucast b) OR ucast c)),
      enc (drop_bit 6 (push_bit 16 (ucast a) OR push_bit 8 (ucast b) OR ucast c)),
      enc (push_bit 16 (ucast a) OR push_bit 8 (ucast b) OR ucast c)] @ Encode rest"
  unfolding Encode.simps Let_def ..

lemma Encode_2:
  "Encode [a, b] =
     [enc (drop_bit 18 (push_bit 16 (ucast a) OR push_bit 8 (ucast b))),
      enc (drop_bit 12 (push_bit 16 (ucast a) OR push_bit 8 (ucast b))),
      enc (drop_bit 6 (push_bit 16 (ucast a) OR push_bit 8 (ucast b))), padChar]"
  unfolding Encode.simps Let_def ..

lemma Encode_1:
  "Encode [a] =
     [enc (drop_bit 18 (push_bit 16 (ucast a))),
      enc (drop_bit 12 (push_bit 16 (ucast a))), padChar, padChar]"
  unfolding Encode.simps Let_def ..

lemma Decode_Encode: "Decode (Encode b) = Inr b"
proof (induction b rule: Encode.induct)
  case (1 a b c rest)
  have "Decode (Encode (a # b # c # rest)) =
        (case Decode (Encode rest) of Inl e \<Rightarrow> Inl e | Inr bs' \<Rightarrow> Inr ([a, b, c] @ bs'))"
    unfolding Encode_3 append_Cons append_Nil
    by (subst Decode_four) (simp_all only: enc_in_alphabet quantum_full append_Cons append_Nil)
  then show ?case using 1 by simp
next
  case (2 a b)
  show ?case
    unfolding Encode_2
    by (subst Decode_pad1) (simp_all only: enc_in_alphabet quantum_two)
next
  case (3 a)
  show ?case
    unfolding Encode_1
    by (subst Decode_pad2) (simp_all only: enc_in_alphabet quantum_one)
next
  case 4
  show ?case by (simp add: Decode_Nil)
qed

section \<open>Round trip of the codec\<close>

text \<open>
  Claim C1. Decoding what the codec encoded gives back the bytes that were encoded:
  for every byte sequence \<open>b\<close>, the empty one included,
  \<open>fromI2PBase64 (toI2PBase64 b)\<close> succeeds and equals \<open>b\<close>.
\<close>

theorem C1_roundtrip: "fromI2PBase64 (toI2PBase64 b) = Inr b"
  unfolding fromI2PBase64_def toI2PBase64_def by (rule Decode_Encode)

theorem C1_roundtrip_witness:
  "fromI2PBase64 (toI2PBase64 [1, 2, 3, 4, 255]) = Inr [1, 2, 3, 4, 255]
   \<and> fromI2PBase64 (toI2PBase64 []) = Inr []"
  using C1_roundtrip [of "[1, 2, 3, 4, 255]"] C1_roundtrip [of "[]"] by simp

section \<open>Shape of the encoder's output\<close>

lemma length_Encode: "length (Encode b) = 4 * ((length b + 2) div 3)"
proof (induction b rule: Encode.induct)
  case (1 a b c rest)
  have "(length (a # b # c # rest) + 2) div 3 = (length rest + 2) div 3 + 1"
    by simp
  then show ?case using 1 by (simp add: Let_def)
qed (simp_all add: Let_def)

lemma set_Encode: "set (Encode b) \<subseteq> insert padChar (set encodeI2P)"
  by (induction b rule: Encode.induct) (auto simp: Let_def enc_in_alphabet)

lemma Encode_eq_Nil_iff: "Encode b = [] \<longleftrightarrow> b = []"
  by (induction b rule: Encode.induct) (simp_all add: Let_def)

lemma Encode_append:
  "length xs mod 3 = 0 \<Longrightarrow> Encode (xs @ ys) = Encode xs @ Encode ys"
proof (induction xs rule: Encode.induct)
  case (1 a b c rest)
  then show ?case by (simp add: Let_def)
qed simp_all

lemma take_516_Encode:
  assumes "385 \<le> length b"
  shows "take 516 (Encode b) = Encode (take 387 b)"
proof (cases "387 \<le> length b")
  case True
  have "Encode b = Encode (take 387 b @ drop 387 b)" by simp
  also have "\<dots> = Encode (take 387 b) @ Encode (drop 387 b)"
    using True by (intro Encode_append) simp
  finally have "Encode b = Encode (take 387 b) @ Encode (drop 387 b)" .
  moreover have "length (Encode (take 387 b)) = 516"
    using True by (simp add: length_Encode)
  ultimately show ?thesis by simp
next
  case False
  then have "take 387 b = b" by simp
  moreover have "length (Encode b) = 516"
    using assms False unfolding length_Encode by presburger
  ultimately show ?thesis by simp
qed

lemma Encode_threshold: "516 \<le> length (Encode b) \<longleftrightarrow> 385 \<le> length b"
  unfolding length_Encode by presburger

lemma length_le_Encode: "length b \<le> length (Encode b)"
  unfolding length_Encode by presburger

section \<open>The accepted characters\<close>

lemma isI2PBase64Rune_iff: "isI2PBase64Rune c \<longleftrightarrow> c \<in> set encodeI2P \<or> c = padChar"
proof -
  have "\<forall>c::char. isI2PBase64Rune c \<longleftrightarrow> c \<in> set encodeI2P \<or> c = padChar" by code_simp
  then show ?thesis by blast
qed

lemma spaceRunes_edges:
  "w \<in> set spaceRunes \<Longrightarrow> \<not> isI2PBase64Rune (hd w) \<and> \<not> isI2PBase64Rune (last w) \<and> hd w \<noteq> CHR 0x00 \<and> last w \<noteq> CHR 0x00"
proof -
  have "list_all (\<lambda>w. \<not> isI2PBase64Rune (hd w) \<and> \<not> isI2PBase64Rune (last w) \<and> hd w \<noteq> CHR 0x00 \<and> last w \<noteq> CHR 0x00) spaceRunes"
    by code_simp
  then show "w \<in> set spaceRunes \<Longrightarrow> ?thesis" by (simp add: list_all_iff)
qed

section \<open>Trimming and splitting\<close>

lemma TrimLeftSpace_id:
  assumes "\<And>w. w \<in> set spaceRunes \<Longrightarrow> hd w \<noteq> hd s"
  shows "TrimLeftSpace s = s"
proof (cases s)
  case Nil
  have "find (\<lambda>w. prefix w []) spaceRunes = None"
    by (auto simp: find_None_iff dest: spaceRunes_nonempty)
  then show ?thesis using Nil by (simp add: TrimLeftSpace.simps)
next
  case (Cons c cs)
  have "\<not> prefix w s" if "w \<in> set spaceRunes" for w
  proof
    assume "prefix w s"
    moreover have "w \<noteq> []" using that by (rule spaceRunes_nonempty)
    ultimately have "hd w = hd s" by (cases w) (auto simp: Cons)
    then show False using assms [OF that] by simp
  qed
  then have "find (\<lambda>w. prefix w s) spaceRunes = None"
    by (auto simp: find_None_iff)
  then show ?thesis by (simp add: TrimLeftSpace.simps)
qed

lemma TrimRightSpace_id:
  assumes "\<And>w. w \<in> set spaceRunes \<Longrightarrow> last w \<noteq> last s"
  shows "TrimRightSpace s = s"
proof (cases "s = []")
  case True
  have "find (\<lambda>w. suffix w []) spaceRunes = None"
    by (auto simp: find_None_iff dest: spaceRunes_nonempty)
  then show ?thesis using True by (simp add: TrimRightSpace.simps)
next
  case False
  have "\<not> suffix w s" if "w \<in> set spaceRunes" for w
  proof
    assume "suffix w s"
    then obtain p where "s = p @ w" by (auto simp: suffix_def)
    moreover have "w \<noteq> []" using that by (rule spaceRunes_nonempty)
    ultimately have "last w = last s" by simp
    then show False using assms [OF that] by simp
  qed
  then have "find (\<lambda>w. suffix w s) spaceRunes = None"
    by (auto simp: find_None_iff)
  then show ?thesis by (simp add: TrimRightSpace.simps)
qed

lemma TrimSpace_id:
  assumes "\<And>w. w \<in> set spaceRunes \<Longrightarrow> hd w \<noteq> hd s \<and> last w \<noteq> last s"
  shows "TrimSpace s = s"
  unfolding TrimSpace_def using assms by (simp add: TrimLeftSpace_id TrimRightSpace_id)

lemma TrimSpace_base64:
  assumes "isI2PBase64Rune (hd s)" "isI2PBase64Rune (last s)"
  shows "TrimSpace s = s"
  using assms by (intro TrimSpace_id) (auto dest: spaceRunes_edges)

lemma set_TrimLeftSpace: "set (TrimLeftSpace s) \<subseteq> set s"
proof (induction s rule: TrimLeftSpace.induct)
  case (1 s)
  show ?case
  proof (cases "find (\<lambda>w. prefix w s) spaceRunes")
    case None
    then show ?thesis by (simp add: TrimLeftSpace.simps)
  next
    case (Some w)
    have "set (TrimLeftSpace (drop (length w) s)) \<subseteq> set (drop (length w) s)"
      using 1 Some by simp
    also have "\<dots> \<subseteq> set s" by (rule set_drop_subset)
    finally show ?thesis using Some by (simp add: TrimLeftSpace.simps)
  qed
qed

lemma set_TrimRightSpace: "set (TrimRightSpace s) \<subseteq> set s"
proof (induction s rule: TrimRightSpace.induct)
  case (1 s)
  show ?case
  proof (cases "find (\<lambda>w. suffix w s) spaceRunes")
    case None
    then show ?thesis by (simp add: TrimRightSpace.simps)
  next
    case (Some w)
    have "set (TrimRightSpace (take (length s - length w) s)) \<subseteq> set (take (length s - length w) s)"
      using 1 Some by simp
    also have "\<dots> \<subseteq> set s" by (rule set_take_subset)
    finally show ?thesis using Some by (simp add: TrimRightSpace.simps)
  qed
qed

lemma set_TrimSpace: "set (TrimSpace s) \<subseteq> set s"
  unfolding TrimSpace_def using set_TrimRightSpace set_TrimLeftSpace by blast

lemma Split_LF_single: "LF \<notin> set s \<Longrightarrow> Split_LF s = [s]"
  by (simp add: Split_LF.simps)

lemma Split_LF_append:
  assumes "LF \<notin> set l"
  shows "Split_LF (l @ LF # r) = l # Split_LF r"
proof -
  have "takeWhile (\<lambda>c. c \<noteq> LF) (l @ LF # r) = l"
    using assms by (induction l) auto
  moreover have "dropWhile (\<lambda>c. c \<noteq> LF) (l @ LF # r) = LF # r"
    using assms by (induction l) auto
  ultimately show ?thesis
    by (subst Split_LF.simps) simp
qed

lemma Split_LF_first:
  assumes "Split_LF s = l # ls"
  shows "LF \<notin> set l" "length l \<le> length s"
proof -
  have "l = (if LF \<in> set s then takeWhile (\<lambda>c. c \<noteq> LF) s else s)"
    using assms by (subst (asm) Split_LF.simps) (auto split: if_splits)
  then show "LF \<notin> set l" "length l \<le> length s"
    by (auto dest: set_takeWhileD simp: length_takeWhile_le)
qed

lemma Split_LF_not_Nil: "Split_LF s \<noteq> []"
  by (subst Split_LF.simps) simp

section \<open>Encoder output is accepted by the format checks\<close>

lemma LF_not_base64: "\<not> isI2PBase64Rune LF"
  by (simp add: isI2PBase64Rune_iff special_not_in_alphabet padChar_def)

lemma list_all_base64_Encode: "list_all isI2PBase64Rune (Encode b)"
  using set_Encode [of b] by (auto simp: list_all_iff isI2PBase64Rune_iff)

lemma LF_notin_Encode: "LF \<notin> set (Encode b)"
  using list_all_base64_Encode [of b] LF_not_base64 by (auto simp: list_all_iff)

lemma isI2PBase64Format_Encode:
  assumes "b \<noteq> []"
  shows "isI2PBase64Format (Encode b)"
proof -
  have ne: "Encode b \<noteq> []" using assms by (simp add: Encode_eq_Nil_iff)
  then have "isI2PBase64Rune (hd (Encode b))" "isI2PBase64Rune (last (Encode b))"
    using list_all_base64_Encode [of b] by (auto simp: list_all_iff)
  then have "TrimSpace (Encode b) = Encode b" by (rule TrimSpace_base64)
  then show ?thesis
    using ne list_all_base64_Encode [of b]
    by (simp add: isI2PBase64Format_def fromI2PBase64_def Decode_Encode)
qed

lemma IsCorrectFormat_two_encodings:
  assumes "x \<noteq> []" "y \<noteq> []"
  shows "IsCorrectFormat (Encode x @ [LF] @ Encode y)"
proof -
  let ?s = "Encode x @ [LF] @ Encode y"
  have nx: "Encode x \<noteq> []" and ny: "Encode y \<noteq> []"
    using assms by (simp_all add: Encode_eq_Nil_iff)
  have "hd ?s = hd (Encode x)" "last ?s = last (Encode y)"
    using nx ny by simp_all
  moreover have "isI2PBase64Rune (hd (Encode x))" "isI2PBase64Rune (last (Encode y))"
    using nx ny list_all_base64_Encode [of x] list_all_base64_Encode [of y]
    by (auto simp: list_all_iff)
  ultimately have "TrimSpace ?s = ?s" by (intro TrimSpace_base64) simp_all
  moreover have "Split_LF ?s = [Encode x, Encode y]"
    using Split_LF_append [OF LF_notin_Encode, of x "Encode y"]
    by (simp add: Split_LF_single LF_notin_Encode)
  ultimately show ?thesis
    using assms by (simp add: IsCorrectFormat_def isI2PBase64Format_Encode)
qed

section \<open>Concrete inputs\<close>

lemma not_IsCorrectFormat_no_LF:
  assumes "LF \<notin> set s"
  shows "\<not> IsCorrectFormat s"
proof -
  have "LF \<notin> set (TrimSpace s)" using assms set_TrimSpace [of s] by blast
  then have "Split_LF (TrimSpace s) = [TrimSpace s]" by (rule Split_LF_single)
  then show ?thesis by (simp add: IsCorrectFormat_def)
qed

lemma enc_0: "enc 0 = CHR ''A''"
  by (simp add: enc_def encodeI2P_def)

lemma Encode_zero_triple: "Encode (0 # 0 # 0 # rest) = ''AAAA'' @ Encode rest"
  by (simp add: Let_def enc_0)

lemma Encode_zeros: "Encode (replicate (3 * n) 0) = replicate (4 * n) (CHR ''A'')"
proof (induction n)
  case 0
  then show ?case by simp
next
  case (Suc n)
  have "3 * Suc n = Suc (Suc (Suc (3 * n)))" by simp
  then have "replicate (3 * Suc n) (0 :: byte) = 0 # 0 # 0 # replicate (3 * n) 0"
    by (simp only: replicate_Suc)
  then have "Encode (replicate (3 * Suc n) 0) = ''AAAA'' @ Encode (replicate (3 * n) 0)"
    by (simp only: Encode_zero_triple)
  moreover have "4 * Suc n = Suc (Suc (Suc (Suc (4 * n))))" by simp
  then have "replicate (4 * Suc n) (CHR ''A'') = ''AAAA'' @ replicate (4 * n) (CHR ''A'')"
    by (simp only: replicate_Suc append_Cons append_Nil)
  ultimately show ?case using Suc by (simp only:)
qed

lemma isI2PBase64Format_As:
  assumes "0 < n"
  shows "isI2PBase64Format (replicate (4 * n) (CHR ''A''))"
proof -
  have "isI2PBase64Format (Encode (replicate (3 * n) 0))"
    using assms by (intro isI2PBase64Format_Encode) simp
  then show ?thesis by (simp only: Encode_zeros)
qed

lemma not_base64_NUL: "\<not> isI2PBase64Rune (CHR 0x00)"
  by (simp add: isI2PBase64Rune_iff encodeI2P_def padChar_def)

lemma raw_zeros:
  assumes "0 < n"
  shows "\<not> IsCorrectFormat (replicate n (CHR 0x00))" "\<not> isI2PBase64Format (replicate n (CHR 0x00))"
proof -
  let ?s = "replicate n (CHR 0x00)"
  show "\<not> IsCorrectFormat ?s" by (rule not_IsCorrectFormat_no_LF) simp
  have "hd ?s = CHR 0x00" "last ?s = CHR 0x00" using assms by (simp_all add: hd_replicate last_replicate)
  then have "TrimSpace ?s = ?s"
    by (intro TrimSpace_id) (auto dest: spaceRunes_edges)
  then show "\<not> isI2PBase64Format ?s"
    using assms by (cases n) (simp_all add: isI2PBase64Format_def Let_def not_base64_NUL)
qed

lemma length_bytesOf: "length (bytesOf s) = length s"
  by (simp add: bytesOf_def)

section \<open>The validator against the specification\<close>

lemma acceptedSet_eq: "acceptedSet = insert padChar (set encodeI2P)"
  by (auto simp: acceptedSet_def encodeI2P_def padChar_def)

lemma isI2PBase64Format_segment_ok: "isI2PBase64Format seg \<longleftrightarrow> segment_ok seg"
proof -
  have "list_all isI2PBase64Rune t \<longleftrightarrow> list_all (\<lambda>c. c \<in> acceptedSet) t" for t
    by (simp add: list_all_iff isI2PBase64Rune_iff acceptedSet_eq) blast
  then show ?thesis
    by (cases "fromI2PBase64 (TrimSpace seg)")
       (simp_all add: isI2PBase64Format_def segment_ok_def Let_def)
qed

text \<open>
  Claim C3. \<open>IsCorrectFormat s\<close> is true exactly when the trimmed content splits on
  line feeds into exactly two segments and each segment, trimmed itself, is non-empty,
  consists of the characters \<open>A-Z a-z 0-9 - ~ =\<close> only and decodes without error; any
  other number of segments and any failing segment give false.
\<close>

theorem C3_validator_refines_spec: "IsCorrectFormat s \<longleftrightarrow> is_canonical_spec s"
proof (cases "Split_LF (TrimSpace s)")
  case Nil
  then show ?thesis by (simp add: IsCorrectFormat_def is_canonical_spec_def)
next
  case (Cons seg1 r1)
  show ?thesis
  proof (cases r1)
    case Nil
    then show ?thesis using Cons by (simp add: IsCorrectFormat_def is_canonical_spec_def)
  next
    case Cons2: (Cons seg2 r2)
    show ?thesis
      using Cons Cons2
      by (cases r2)
         (simp_all add: IsCorrectFormat_def is_canonical_spec_def isI2PBase64Format_segment_ok)
  qed
qed

lemma IsCorrectFormat_8_4: "IsCorrectFormat (''AAAAAAAA'' @ [LF] @ ''AAAA'')"
proof -
  have "Encode [0, 0, 0, 0, 0, 0] = ''AAAAAAAA''" "Encode [0, 0, 0] = ''AAAA''"
    by (simp_all add: Let_def enc_0)
  then show ?thesis
    using IsCorrectFormat_two_encodings [of "[0, 0, 0, 0, 0, 0]" "[0, 0, 0]"] by simp
qed

theorem C3_validator_refines_spec_witness:
  "IsCorrectFormat (''AAAAAAAA'' @ [LF] @ ''AAAA'')
   \<and> is_canonical_spec (''AAAAAAAA'' @ [LF] @ ''AAAA'')
   \<and> \<not> IsCorrectFormat ''AAAA'' \<and> \<not> is_canonical_spec ''AAAA''"
proof -
  have "\<not> IsCorrectFormat ''AAAA''" by (rule not_IsCorrectFormat_no_LF) simp
  then show ?thesis
    using IsCorrectFormat_8_4 C3_validator_refines_spec [of "''AAAAAAAA'' @ [LF] @ ''AAAA''"]
      C3_validator_refines_spec [of "''AAAA''"]
    by simp
qed

section \<open>Properties of the conversion\<close>

text \<open>
  Claim C4. Whenever \<open>IsCorrectFormat x\<close> holds the conversion returns \<open>x\<close> itself,
  byte for byte, whatever the length of its first line.
\<close>

theorem C4_passthrough: "IsCorrectFormat x \<Longrightarrow> ConvertKeyFile x = Inr x"
  by (simp add: ConvertKeyFile_def)

theorem C4_passthrough_witness:
  "IsCorrectFormat (''AAAAAAAA'' @ [LF] @ ''AAAA'')
   \<and> ConvertKeyFile (''AAAAAAAA'' @ [LF] @ ''AAAA'') = Inr (''AAAAAAAA'' @ [LF] @ ''AAAA'')
   \<and> length ''AAAAAAAA'' \<noteq> 516"
  using C4_passthrough [OF IsCorrectFormat_8_4] IsCorrectFormat_8_4 by simp

text \<open>
  Claim C5. For an input that is not canonical and that passes the format classifier
  as a whole, a first line of at least 516 characters gives the output: the first 516
  characters of that line, a line feed, the whole first line. In particular an encoded
  line of 700 characters without a line feed gives its first 516 characters, a line
  feed and the 700 characters.
\<close>

theorem C5_extract_prefix:
  "(\<not> IsCorrectFormat data \<and> isI2PBase64Format data \<and> Split_LF data = l # ls
      \<and> 516 \<le> length l
    \<longrightarrow> ConvertKeyFile data = Inr (take 516 l @ [LF] @ l))
   \<and> (length s = 700 \<and> LF \<notin> set s \<and> isI2PBase64Format s
    \<longrightarrow> ConvertKeyFile s = Inr (take 516 s @ [LF] @ s))"
proof (intro conjI impI)
  assume "\<not> IsCorrectFormat data \<and> isI2PBase64Format data \<and> Split_LF data = l # ls
      \<and> 516 \<le> length l"
  then show "ConvertKeyFile data = Inr (take 516 l @ [LF] @ l)"
    by (simp add: ConvertKeyFile_def)
next
  assume a: "length s = 700 \<and> LF \<notin> set s \<and> isI2PBase64Format s"
  then have "\<not> IsCorrectFormat s" "Split_LF s = [s]"
    by (simp_all add: not_IsCorrectFormat_no_LF Split_LF_single)
  then show "ConvertKeyFile s = Inr (take 516 s @ [LF] @ s)"
    using a by (simp add: ConvertKeyFile_def)
qed

theorem C5_extract_prefix_witness:
  "length (replicate 700 (CHR ''A'')) = 700 \<and> LF \<notin> set (replicate 700 (CHR ''A''))
   \<and> isI2PBase64Format (replicate 700 (CHR ''A''))
   \<and> \<not> IsCorrectFormat (replicate 700 (CHR ''A''))
   \<and> Split_LF (replicate 700 (CHR ''A'')) = [replicate 700 (CHR ''A'')]
   \<and> ConvertKeyFile (replicate 700 (CHR ''A''))
       = Inr (replicate 516 (CHR ''A'') @ [LF] @ replicate 700 (CHR ''A''))"
proof -
  let ?s = "replicate 700 (CHR ''A'')"
  have b64: "isI2PBase64Format ?s" using isI2PBase64Format_As [of 175] by simp
  have nl: "LF \<notin> set ?s" by simp
  have "ConvertKeyFile ?s = Inr (take 516 ?s @ [LF] @ ?s)"
    using C5_extract_prefix [of ?s ?s "[]" ?s] b64 nl
    by (simp add: not_IsCorrectFormat_no_LF Split_LF_single)
  then show ?thesis
    using b64 by (simp add: not_IsCorrectFormat_no_LF Split_LF_single)
qed

text \<open>
  Claim C6. For an input that is not canonical and that passes the format classifier
  as a whole, a first line shorter than 516 characters makes the conversion encode the
  raw input bytes themselves (the text is treated as binary); the 516-character split
  is then applied to that encoding, and the conversion fails when it is too short.
\<close>

theorem C6_fallback_reencodes_raw:
  assumes "\<not> IsCorrectFormat data" "isI2PBase64Format data"
    and "Split_LF data = l # ls" "length l < 516"
  shows "ConvertKeyFile data =
         (let completeKey = toI2PBase64 (bytesOf data) in
          if 516 \<le> length completeKey
          then Inr (take 516 completeKey @ [LF] @ completeKey)
          else Inl KeyTooShort)"
  using assms by (simp add: ConvertKeyFile_def Let_def)

theorem C6_fallback_reencodes_raw_witness:
  "\<not> IsCorrectFormat (replicate 400 (CHR ''A''))
   \<and> isI2PBase64Format (replicate 400 (CHR ''A''))
   \<and> Split_LF (replicate 400 (CHR ''A'')) = [replicate 400 (CHR ''A'')]
   \<and> length (replicate 400 (CHR ''A'')) < 516
   \<and> 516 \<le> length (toI2PBase64 (bytesOf (replicate 400 (CHR ''A''))))
   \<and> ConvertKeyFile (replicate 400 (CHR ''A'')) =
       Inr (take 516 (toI2PBase64 (bytesOf (replicate 400 (CHR ''A'')))) @ [LF]
            @ toI2PBase64 (bytesOf (replicate 400 (CHR ''A''))))"
proof -
  let ?s = "replicate 400 (CHR ''A'')"
  have b64: "isI2PBase64Format ?s" using isI2PBase64Format_As [of 100] by simp
  have nc: "\<not> IsCorrectFormat ?s" by (rule not_IsCorrectFormat_no_LF) simp
  have sp: "Split_LF ?s = [?s]" by (rule Split_LF_single) simp
  have len: "516 \<le> length (toI2PBase64 (bytesOf ?s))"
    by (simp add: toI2PBase64_def length_Encode length_bytesOf)
  show ?thesis
    using C6_fallback_reencodes_raw [OF nc b64 sp] b64 nc sp len by (simp add: Let_def)
qed

lemma ConvertKeyFile_binary:
  assumes "\<not> IsCorrectFormat data"
    and "\<not> isI2PBase64Format data \<or> (\<exists>l ls. Split_LF data = l # ls \<and> length l < 516)"
  shows "ConvertKeyFile data =
         (if 385 \<le> length data
          then Inr (take 516 (Encode (bytesOf data)) @ [LF] @ Encode (bytesOf data))
          else Inl KeyTooShort)"
  using assms
  by (auto simp: ConvertKeyFile_def Let_def toI2PBase64_def Encode_threshold length_bytesOf)

lemma ConvertKeyFile_cases:
  assumes "\<not> IsCorrectFormat data"
  obtains (extracted) l ls where "isI2PBase64Format data" "Split_LF data = l # ls" "516 \<le> length l"
      "ConvertKeyFile data = Inr (take 516 l @ [LF] @ l)"
  | (reencoded) "\<not> isI2PBase64Format data \<or> (\<exists>l ls. Split_LF data = l # ls \<and> length l < 516)"
proof (cases "isI2PBase64Format data")
  case False
  then show ?thesis using reencoded by blast
next
  case True
  obtain l ls where sp: "Split_LF data = l # ls"
    using Split_LF_not_Nil [of data] by (cases "Split_LF data") auto
  show ?thesis
  proof (cases "516 \<le> length l")
    case True
    then have "ConvertKeyFile data = Inr (take 516 l @ [LF] @ l)"
      using assms \<open>isI2PBase64Format data\<close> sp by (simp add: ConvertKeyFile_def)
    then show ?thesis using extracted \<open>isI2PBase64Format data\<close> sp True by blast
  next
    case False
    then show ?thesis using reencoded sp by auto
  qed
qed

text \<open>
  Claim C7. An input that is not canonical and whose encoding under the codec is
  shorter than 516 characters makes the conversion fail with the error "key data too
  short"; no text is produced.
\<close>

theorem C7_too_short_fails:
  assumes "\<not> IsCorrectFormat data" "length (toI2PBase64 (bytesOf data)) < 516"
  shows "ConvertKeyFile data = Inl KeyTooShort"
proof -
  have short: "length data < 385"
    using assms(2) Encode_threshold [of "bytesOf data"]
    by (simp add: toI2PBase64_def length_bytesOf)
  from assms(1) show ?thesis
  proof (cases rule: ConvertKeyFile_cases)
    case (extracted l ls)
    then have "length l \<le> length data" by (auto dest: Split_LF_first(2))
    then show ?thesis using extracted(3) short by simp
  next
    case reencoded
    then show ?thesis using ConvertKeyFile_binary [OF assms(1)] short by simp
  qed
qed

theorem C7_too_short_fails_witness:
  "\<not> IsCorrectFormat (replicate 100 (CHR 0x00))
   \<and> length (toI2PBase64 (bytesOf (replicate 100 (CHR 0x00)))) < 516
   \<and> ConvertKeyFile (replicate 100 (CHR 0x00)) = Inl KeyTooShort"
proof -
  let ?d = "replicate 100 (CHR 0x00)"
  have nc: "\<not> IsCorrectFormat ?d" using raw_zeros(1) [of 100] by simp
  have len: "length (toI2PBase64 (bytesOf ?d)) < 516"
    by (simp add: toI2PBase64_def length_Encode length_bytesOf)
  show ?thesis using C7_too_short_fails [OF nc len] nc len by simp
qed

text \<open>
  Claim C8, as amended. Every output that the conversion derives (the input was not
  passed through unchanged) consists of exactly two lines, the first of exactly 516
  characters and the second at least as long. An input that is passed through keeps
  its own two lines, whatever their lengths.
\<close>

theorem C8_derived_lengths:
  assumes "\<not> IsCorrectFormat data" "ConvertKeyFile data = Inr out"
  shows "\<exists>line1 line2. Split_LF out = [line1, line2] \<and> length line1 = 516
           \<and> length line1 \<le> length line2 \<and> line1 = take 516 line2"
proof -
  have split: "Split_LF (take 516 k @ [LF] @ k) = [take 516 k, k]" if "LF \<notin> set k" for k
  proof -
    have "LF \<notin> set (take 516 k)" using that by (auto dest: in_set_takeD)
    then show ?thesis
      using Split_LF_append [of "take 516 k" k] that by (simp add: Split_LF_single)
  qed
  from assms(1) show ?thesis
  proof (cases rule: ConvertKeyFile_cases)
    case (extracted l ls)
    then have "LF \<notin> set l" by (auto dest: Split_LF_first(1))
    then have "Split_LF out = [take 516 l, l]"
      using split extracted(4) assms(2) by simp
    then show ?thesis using extracted(3) by simp
  next
    case reencoded
    let ?k = "Encode (bytesOf data)"
    have "385 \<le> length data" "out = take 516 ?k @ [LF] @ ?k"
      using ConvertKeyFile_binary [OF assms(1) reencoded] assms(2) by (simp_all split: if_splits)
    moreover have "516 \<le> length ?k"
      using calculation(1) by (simp add: Encode_threshold length_bytesOf)
    moreover have "Split_LF (take 516 ?k @ [LF] @ ?k) = [take 516 ?k, ?k]"
      by (rule split) (rule LF_notin_Encode)
    ultimately show ?thesis by simp
  qed
qed

theorem C8_derived_lengths_witness:
  "\<not> IsCorrectFormat (replicate 386 (CHR 0x00))
   \<and> (\<exists>out. ConvertKeyFile (replicate 386 (CHR 0x00)) = Inr out
        \<and> (\<exists>line1 line2. Split_LF out = [line1, line2] \<and> length line1 = 516
              \<and> length line1 \<le> length line2 \<and> line1 = take 516 line2))"
proof -
  let ?d = "replicate 386 (CHR 0x00)"
  have nc: "\<not> IsCorrectFormat ?d" and nb: "\<not> isI2PBase64Format ?d"
    using raw_zeros [of 386] by simp_all
  obtain out where out: "ConvertKeyFile ?d = Inr out"
    using ConvertKeyFile_binary [of ?d] nc nb by simp
  show ?thesis using C8_derived_lengths [OF nc out] nc out by blast
qed

text \<open>
  Claim C8 as stated fails on an input that is passed through: the two lines
  \<open>AAAAAAAA\<close> and \<open>AAAA\<close> are accepted by the validator, the conversion returns them
  unchanged, and the first line is longer than the second.
\<close>

theorem C8_counterexample:
  "ConvertKeyFile (''AAAAAAAAAAAA'' @ [LF] @ ''AAAA'') = Inr (''AAAAAAAAAAAA'' @ [LF] @ ''AAAA'')
   \<and> Split_LF (''AAAAAAAAAAAA'' @ [LF] @ ''AAAA'') = [''AAAAAAAAAAAA'', ''AAAA'']
   \<and> \<not> length ''AAAAAAAAAAAA'' \<le> length ''AAAA''"
proof -
  have "Encode [0, 0, 0, 0, 0, 0, 0, 0, 0] = ''AAAAAAAAAAAA''" "Encode [0, 0, 0] = ''AAAA''"
    by (simp_all add: Let_def enc_0)
  then have "IsCorrectFormat (''AAAAAAAAAAAA'' @ [LF] @ ''AAAA'')"
    using IsCorrectFormat_two_encodings [of "[0, 0, 0, 0, 0, 0, 0, 0, 0]" "[0, 0, 0]"] by simp
  then have "ConvertKeyFile (''AAAAAAAAAAAA'' @ [LF] @ ''AAAA'') = Inr (''AAAAAAAAAAAA'' @ [LF] @ ''AAAA'')"
    by (simp add: ConvertKeyFile_def)
  moreover have "Split_LF (''AAAAAAAAAAAA'' @ [LF] @ ''AAAA'') = [''AAAAAAAAAAAA'', ''AAAA'']"
    using Split_LF_append [of "''AAAAAAAAAAAA''" "''AAAA''"] by (simp add: Split_LF_single)
  ultimately show ?thesis by simp
qed

text \<open>
  Claim C9. The encoding of \<open>n\<close> bytes has exactly \<open>4 * \<lceil>n / 3\<rceil>\<close> characters, and an
  input of \<open>n\<close> bytes that is neither accepted by the validator nor classified as
  encoded text is converted successfully exactly when \<open>n \<ge> 385\<close> (385 bytes are the
  fewest whose encoding reaches 516 characters; 387 is two more).
\<close>

theorem C9_binary_threshold:
  "length (toI2PBase64 b) = 4 * ((length b + 2) div 3)
   \<and> (\<not> IsCorrectFormat data \<and> \<not> isI2PBase64Format data
      \<longrightarrow> ((\<exists>out. ConvertKeyFile data = Inr out) \<longleftrightarrow> 385 \<le> length data))"
proof (intro conjI impI)
  show "length (toI2PBase64 b) = 4 * ((length b + 2) div 3)"
    by (simp add: toI2PBase64_def length_Encode)
next
  assume "\<not> IsCorrectFormat data \<and> \<not> isI2PBase64Format data"
  then show "(\<exists>out. ConvertKeyFile data = Inr out) \<longleftrightarrow> 385 \<le> length data"
    using ConvertKeyFile_binary [of data] by auto
qed

theorem C9_binary_threshold_witness:
  "\<not> IsCorrectFormat (replicate 385 (CHR 0x00)) \<and> \<not> isI2PBase64Format (replicate 385 (CHR 0x00))
   \<and> (\<exists>out. ConvertKeyFile (replicate 385 (CHR 0x00)) = Inr out)
   \<and> \<not> IsCorrectFormat (replicate 384 (CHR 0x00)) \<and> \<not> isI2PBase64Format (replicate 384 (CHR 0x00))
   \<and> \<not> (\<exists>out. ConvertKeyFile (replicate 384 (CHR 0x00)) = Inr out)
   \<and> length (toI2PBase64 (replicate 385 0)) = 516
   \<and> length (toI2PBase64 (replicate 384 0)) = 512"
proof -
  have a: "\<not> IsCorrectFormat (replicate 385 (CHR 0x00))" "\<not> isI2PBase64Format (replicate 385 (CHR 0x00))"
    using raw_zeros [of 385] by simp_all
  have b: "\<not> IsCorrectFormat (replicate 384 (CHR 0x00))" "\<not> isI2PBase64Format (replicate 384 (CHR 0x00))"
    using raw_zeros [of 384] by simp_all
  show ?thesis
    using a b C9_binary_threshold [of "replicate 385 0" "replicate 385 (CHR 0x00)"]
      C9_binary_threshold [of "replicate 384 0" "replicate 384 (CHR 0x00)"]
    by simp
qed

text \<open>
  Claim C10. When the conversion takes the binary path (it encodes the raw bytes) and
  succeeds, its output is accepted by \<open>IsCorrectFormat\<close>, and the first 516 characters
  of the encoding decode without error.
\<close>

theorem C10_binary_output_canonical:
  assumes "\<not> IsCorrectFormat data"
    and "\<not> isI2PBase64Format data \<or> (\<exists>l ls. Split_LF data = l # ls \<and> length l < 516)"
    and "ConvertKeyFile data = Inr out"
  shows "IsCorrectFormat out
         \<and> (\<exists>bs. fromI2PBase64 (take 516 (toI2PBase64 (bytesOf data))) = Inr bs)"
proof -
  let ?b = "bytesOf data"
  have len: "385 \<le> length data" and out: "out = take 516 (Encode ?b) @ [LF] @ Encode ?b"
    using ConvertKeyFile_binary [OF assms(1,2)] assms(3) by (simp_all split: if_splits)
  have pre: "take 516 (Encode ?b) = Encode (take 387 ?b)"
    using len by (intro take_516_Encode) (simp add: length_bytesOf)
  have "take 387 ?b \<noteq> []" "?b \<noteq> []"
    using len by (auto simp: bytesOf_def)
  then have "IsCorrectFormat (Encode (take 387 ?b) @ [LF] @ Encode ?b)"
    by (rule IsCorrectFormat_two_encodings)
  moreover have "fromI2PBase64 (take 516 (toI2PBase64 ?b)) = Inr (take 387 ?b)"
    by (simp add: toI2PBase64_def fromI2PBase64_def pre Decode_Encode)
  ultimately show ?thesis using out pre by simp
qed

theorem C10_binary_output_canonical_witness:
  "\<not> IsCorrectFormat (replicate 387 (CHR 0x00)) \<and> \<not> isI2PBase64Format (replicate 387 (CHR 0x00))
   \<and> (\<exists>out. ConvertKeyFile (replicate 387 (CHR 0x00)) = Inr out \<and> IsCorrectFormat out)"
proof -
  let ?d = "replicate 387 (CHR 0x00)"
  have nc: "\<not> IsCorrectFormat ?d" and nb: "\<not> isI2PBase64Format ?d"
    using raw_zeros [of 387] by simp_all
  obtain out where out: "ConvertKeyFile ?d = Inr out"
    using ConvertKeyFile_binary [of ?d] nc nb by simp
  have "IsCorrectFormat out"
    using C10_binary_output_canonical [OF nc _ out] nb by blast
  then show ?thesis using nc nb out by blast
qed

section \<open>Line feeds and carriage returns do not matter to the decoder\<close>

text \<open>
  Decoding a text and decoding the text without its line feeds and carriage returns
  give the same result: first for one quantum, then for the whole loop.
\<close>

lemma filter_dropWhile_newline:
  "filter (\<lambda>c. \<not> isNewline c) (dropWhile isNewline s) = filter (\<lambda>c. \<not> isNewline c) s"
  by (induction s) simp_all

lemma dropWhile_newline_Nil_iff:
  "dropWhile isNewline s = [] \<longleftrightarrow> filter (\<lambda>c. \<not> isNewline c) s = []"
  by (simp only: dropWhile_eq_Nil_conv filter_empty_conv not_not)

lemma dropWhile_newline_filter:
  "dropWhile isNewline (filter (\<lambda>c. \<not> isNewline c) s) = filter (\<lambda>c. \<not> isNewline c) s"
  by (induction s) simp_all

lemma dropWhile_newline_Cons:
  assumes "dropWhile isNewline s = c # r"
  shows "filter (\<lambda>c. \<not> isNewline c) s = c # filter (\<lambda>c. \<not> isNewline c) r"
proof -
  have "dropWhile isNewline s \<noteq> []" unfolding assms by simp
  then have "\<not> isNewline (hd (dropWhile isNewline s))" by (rule hd_dropWhile)
  then have c: "\<not> isNewline c" unfolding assms by simp
  have "filter (\<lambda>c. \<not> isNewline c) s = filter (\<lambda>c. \<not> isNewline c) (dropWhile isNewline s)"
    by (rule filter_dropWhile_newline [symmetric])
  also have "\<dots> = c # filter (\<lambda>c. \<not> isNewline c) r"
    unfolding assms using c by simp
  finally show ?thesis .
qed

lemma symbol_not_newline: "c \<in> set encodeI2P \<Longrightarrow> \<not> isNewline c"
  using special_not_in_alphabet by (auto simp: isNewline_def)

lemma symbol_not_pad: "c \<in> set encodeI2P \<Longrightarrow> c \<noteq> padChar"
  using special_not_in_alphabet by auto

lemma char_class:
  obtains (sym) "c \<in> set encodeI2P" | (pad) "c = padChar" | (nl) "isNewline c"
  | (other) "c \<notin> set encodeI2P" "c \<noteq> padChar" "\<not> isNewline c"
  by blast

lemma dq_pad_01: "j = 0 \<or> j = 1 \<Longrightarrow> decodeQuantum dbuf j (padChar # src) = Inl CorruptInputError"
  by (subst dq_pad) simp

lemma dq_pad_2:
  "decodeQuantum dbuf 2 (padChar # src) =
     (case dropWhile isNewline src of
        [] \<Rightarrow> Inl CorruptInputError
      | c' # src' \<Rightarrow>
          if c' \<noteq> padChar then Inl CorruptInputError
          else if dropWhile isNewline src' \<noteq> [] then Inl CorruptInputError
          else Inr (quantumBytes dbuf 2, []))"
  by (subst dq_pad) simp

lemma dq_pad_3:
  "2 < j \<Longrightarrow> decodeQuantum dbuf j (padChar # src) =
     (if dropWhile isNewline src \<noteq> [] then Inl CorruptInputError
      else Inr (quantumBytes dbuf j, []))"
  by (subst dq_pad) simp

lemma dq_pad_filter:
  "decodeQuantum dbuf j (padChar # filter (\<lambda>c. \<not> isNewline c) s) =
     (case decodeQuantum dbuf j (padChar # s) of
        Inl e \<Rightarrow> Inl e
      | Inr (bs, r) \<Rightarrow> Inr (bs, filter (\<lambda>c. \<not> isNewline c) r))"
proof -
  let ?f = "filter (\<lambda>c. \<not> isNewline c)"
  consider "j = 0 \<or> j = 1" | "j = 2" | "2 < j" by linarith
  then show ?thesis
  proof cases
    case 1
    then show ?thesis by (simp only: dq_pad_01) simp
  next
    case 3
    have "dropWhile isNewline (?f s) \<noteq> [] \<longleftrightarrow> dropWhile isNewline s \<noteq> []"
      by (simp only: dropWhile_newline_filter dropWhile_newline_Nil_iff)
    then show ?thesis using 3 by (simp only: dq_pad_3) simp
  next
    case 2
    show ?thesis
    proof (cases "dropWhile isNewline s")
      case Nil
      then have "?f s = []" by (simp only: dropWhile_newline_Nil_iff)
      then have "dropWhile isNewline (?f s) = []" by simp
      then show ?thesis unfolding 2 dq_pad_2 Nil by simp
    next
      case (Cons c' s')
      then have f: "?f s = c' # ?f s'"
        by (rule dropWhile_newline_Cons)
      have "dropWhile isNewline (?f s) = ?f s"
        by (rule dropWhile_newline_filter)
      then have d: "dropWhile isNewline (?f s) = c' # ?f s'"
        by (simp only: f)
      have e: "dropWhile isNewline (?f s') \<noteq> [] \<longleftrightarrow> dropWhile isNewline s' \<noteq> []"
        by (simp only: dropWhile_newline_filter dropWhile_newline_Nil_iff)
      show ?thesis unfolding 2 dq_pad_2 Cons d using e by simp
    qed
  qed
qed

lemma decodeQuantum_filter:
  "decodeQuantum dbuf j (filter (\<lambda>c. \<not> isNewline c) s) =
     (case decodeQuantum dbuf j s of
        Inl e \<Rightarrow> Inl e
      | Inr (bs, r) \<Rightarrow> Inr (bs, filter (\<lambda>c. \<not> isNewline c) r))"
proof (induction s arbitrary: dbuf j)
  case Nil
  show ?case by simp
next
  case (Cons c s)
  show ?case
  proof (cases c rule: char_class)
    case sym
    then have "\<not> isNewline c" by (rule symbol_not_newline)
    then show ?thesis
      using Cons sym by (simp add: dq_symbol del: decodeQuantum.simps)
  next
    case nl
    then show ?thesis
      using Cons by (simp add: dq_newline del: decodeQuantum.simps)
  next
    case other
    then show ?thesis
      by (simp add: dq_other del: decodeQuantum.simps)
  next
    case pad
    then show ?thesis
      using dq_pad_filter [of dbuf j s] by (simp add: padChar_not_newline del: decodeQuantum.simps)
  qed
qed

lemma Decode_unfold:
  "s \<noteq> [] \<Longrightarrow> Decode s =
     (case decodeQuantum [0, 0, 0, 0] 0 s of
        Inl e \<Rightarrow> Inl e
      | Inr (bs, rest) \<Rightarrow>
          (case Decode rest of Inl e \<Rightarrow> Inl e | Inr bs' \<Rightarrow> Inr (bs @ bs')))"
  by (subst Decode.simps) simp

lemma Decode_filter_newlines:
  "Decode (filter (\<lambda>c. \<not> isNewline c) s) = Decode s"
proof (induction s rule: Decode.induct)
  case (1 s)
  let ?f = "filter (\<lambda>c. \<not> isNewline c)"
  show ?case
  proof (cases "s = []")
    case True
    then show ?thesis by simp
  next
    case ne: False
    note q = decodeQuantum_filter [of "[0, 0, 0, 0]" 0 s]
    show ?thesis
    proof (cases "decodeQuantum [0, 0, 0, 0] 0 s")
      case (Inl e)
      then have qf: "decodeQuantum [0, 0, 0, 0] 0 (?f s) = Inl e" using q by simp
      then have "?f s \<noteq> []" by auto
      then have "Decode (?f s) = Inl e"
        unfolding Decode_unfold [OF \<open>?f s \<noteq> []\<close>] qf by simp
      moreover have "Decode s = Inl e"
        unfolding Decode_unfold [OF ne] Inl by simp
      ultimately show ?thesis by simp
    next
      case (Inr x)
      obtain bs rest where x: "x = (bs, rest)" by (cases x)
      have ih: "Decode (?f rest) = Decode rest"
        using 1 [OF ne Inr x [symmetric]] .
      have qs: "decodeQuantum [0, 0, 0, 0] 0 s = Inr (bs, rest)"
        using Inr x by simp
      have qf: "decodeQuantum [0, 0, 0, 0] 0 (?f s) = Inr (bs, ?f rest)"
        using q qs by simp
      have ds: "Decode s = (case Decode rest of Inl e \<Rightarrow> Inl e | Inr bs' \<Rightarrow> Inr (bs @ bs'))"
        unfolding Decode_unfold [OF ne] qs by simp
      show ?thesis
      proof (cases "?f s = []")
        case True
        then have "bs = []" "?f rest = []" using qf by simp_all
        then have "Decode rest = Inr []" using ih by (simp add: Decode_Nil)
        then show ?thesis using ds True \<open>bs = []\<close> by (simp add: Decode_Nil)
      next
        case False
        then have "Decode (?f s) =
            (case Decode (?f rest) of Inl e \<Rightarrow> Inl e | Inr bs' \<Rightarrow> Inr (bs @ bs'))"
          unfolding Decode_unfold [OF False] qf by simp
        then show ?thesis using ih ds by simp
      qed
    qed
  qed
qed

section \<open>The decoder on text without line breaks\<close>

text \<open>
  On text without line breaks the decoder fails exactly on the texts that are not
  \<open>well_padded\<close>: fewer than four characters never decode, four symbols of the
  alphabet pass the question on to the rest of the text, and a quantum with a character
  outside the alphabet decodes only if it is the last one and ends in \<open>=\<close> or \<open>==\<close>.
\<close>

lemma dropWhile_newline_free:
  "\<forall>c\<in>set s. \<not> isNewline c \<Longrightarrow> dropWhile isNewline s = s"
  by (cases s) simp_all

lemma dq_short_fails:
  assumes "\<forall>c\<in>set s. \<not> isNewline c" "j + length s < 4" "0 < j + length s"
  shows "decodeQuantum dbuf j s = Inl CorruptInputError"
  using assms
proof (induction s arbitrary: dbuf j)
  case Nil
  then show ?case by simp
next
  case (Cons c s)
  then have nf: "\<forall>c\<in>set s. \<not> isNewline c" and nc: "\<not> isNewline c" by simp_all
  show ?case
  proof (cases c rule: char_class)
    case sym
    have "decodeQuantum dbuf j (c # s) = decodeQuantum (dbuf[j := decodeMap c]) (Suc j) s"
      using Cons.prems(2) by (simp only: dq_symbol [OF sym]) simp
    also have "\<dots> = Inl CorruptInputError"
      using Cons.prems(2) by (intro Cons.IH nf) simp_all
    finally show ?thesis .
  next
    case pad
    have "j = 0 \<or> j = 1 \<or> (j = 2 \<and> s = [])"
      using Cons.prems(2) by (cases s) auto
    then consider "j = 0 \<or> j = 1" | "j = 2" "s = []" by blast
    then show ?thesis
    proof cases
      case 1
      then show ?thesis unfolding pad by (rule dq_pad_01)
    next
      case 2
      then show ?thesis unfolding pad by (simp add: dq_pad_2 del: decodeQuantum.simps)
    qed
  next
    case nl
    then show ?thesis using nc by simp
  next
    case other
    then show ?thesis by (intro dq_other)
  qed
qed

lemma Decode_short_fails:
  assumes "\<forall>c\<in>set t. \<not> isNewline c" "t \<noteq> []" "length t < 4"
  shows "Decode t = Inl CorruptInputError"
proof -
  have "decodeQuantum [0, 0, 0, 0] 0 t = Inl CorruptInputError"
    using assms by (intro dq_short_fails) simp_all
  then show ?thesis unfolding Decode_unfold [OF assms(2)] by simp
qed

lemma well_padded_length: "well_padded t \<Longrightarrow> length t mod 4 = 0"
  by (simp add: well_padded_def)

lemma well_padded_Nil: "well_padded []"
  by (simp add: well_padded_def)

lemma well_padded_short:
  assumes "t \<noteq> []" "length t < 4"
  shows "\<not> well_padded t"
proof
  assume "well_padded t"
  then have "length t mod 4 = 0" by (rule well_padded_length)
  then show False using assms by (cases t) auto
qed


lemma well_padded_symbols_then:
  assumes "set pre \<subseteq> set encodeI2P" "c \<notin> set encodeI2P"
  shows "well_padded (pre @ c # s) \<longleftrightarrow>
         c = padChar \<and> ((s = [] \<and> length pre mod 4 = 3) \<or> (s = [padChar] \<and> length pre mod 4 = 2))"
proof -
  have pre: "\<forall>x\<in>set pre. x \<noteq> padChar" "list_all (\<lambda>c. c \<in> set encodeI2P \<or> c = padChar) pre"
    using assms(1) symbol_not_pad by (auto simp: list_all_iff)
  show ?thesis
  proof (cases "c = padChar")
    case False
    then show ?thesis using assms(2) by (simp add: well_padded_def)
  next
    case True
    have d: "dropWhile (\<lambda>c. c \<noteq> padChar) (pre @ c # s) = padChar # s"
      using pre(1) True by (induction pre) simp_all
    have "well_padded (pre @ c # s) \<longleftrightarrow>
          (length pre + Suc (length s)) mod 4 = 0 \<and> (s = [] \<or> s = [padChar])"
      unfolding well_padded_def d using pre(2) True by auto
    also have "\<dots> \<longleftrightarrow> (s = [] \<and> length pre mod 4 = 3) \<or> (s = [padChar] \<and> length pre mod 4 = 2)"
      by (cases "s = []"; cases "s = [padChar]") (simp_all, presburger+)
    finally show ?thesis using True by simp
  qed
qed

lemma well_padded_four_symbols:
  assumes "c0 \<in> set encodeI2P" "c1 \<in> set encodeI2P" "c2 \<in> set encodeI2P" "c3 \<in> set encodeI2P"
  shows "well_padded (c0 # c1 # c2 # c3 # t) \<longleftrightarrow> well_padded t"
proof -
  have "c0 \<noteq> padChar" "c1 \<noteq> padChar" "c2 \<noteq> padChar" "c3 \<noteq> padChar"
    using assms by (simp_all add: symbol_not_pad)
  moreover have "Suc (Suc (Suc (Suc (length t)))) mod 4 = length t mod 4"
    by presburger
  ultimately show ?thesis using assms by (simp add: well_padded_def)
qed

lemma dq_bad_early:
  assumes "c \<notin> set encodeI2P" "\<not> isNewline c" "j = 0 \<or> j = 1"
  shows "decodeQuantum dbuf j (c # s) = Inl CorruptInputError"
proof (cases "c = padChar")
  case True
  show ?thesis unfolding True using assms(3) by (rule dq_pad_01)
next
  case False
  then show ?thesis using assms(1,2) by (intro dq_other)
qed

lemma dq_pad_at_2:
  assumes "\<forall>c\<in>set s. \<not> isNewline c"
  shows "decodeQuantum dbuf (Suc (Suc 0)) (padChar # s) =
         (if s = [padChar] then Inr (quantumBytes dbuf 2, []) else Inl CorruptInputError)"
proof -
  have two: "Suc (Suc 0) = 2" by simp
  have d: "dropWhile isNewline s = s" using assms by (rule dropWhile_newline_free)
  show ?thesis
  proof (cases s)
    case Nil
    then show ?thesis unfolding two dq_pad_2 by simp
  next
    case (Cons c' s')
    then have "\<forall>c\<in>set s'. \<not> isNewline c" using assms by simp
    then have d': "dropWhile isNewline s' = s'" by (rule dropWhile_newline_free)
    show ?thesis unfolding two dq_pad_2 d unfolding Cons list.case d' by simp
  qed
qed

lemma dq_pad_at_3:
  assumes "\<forall>c\<in>set s. \<not> isNewline c"
  shows "decodeQuantum dbuf (Suc (Suc (Suc 0))) (padChar # s) =
         (if s = [] then Inr (quantumBytes dbuf 3, []) else Inl CorruptInputError)"
proof -
  have d: "dropWhile isNewline s = s" using assms by (rule dropWhile_newline_free)
  have "decodeQuantum dbuf (Suc (Suc (Suc 0))) (padChar # s) =
        (if dropWhile isNewline s \<noteq> [] then Inl CorruptInputError
         else Inr (quantumBytes dbuf (Suc (Suc (Suc 0))), []))"
    by (rule dq_pad_3) simp
  then show ?thesis unfolding d by (simp add: numeral_3_eq_3)
qed

lemma dq_sym_step:
  assumes "c \<in> set encodeI2P" "j < 3"
  shows "decodeQuantum dbuf j (c # s) = decodeQuantum (dbuf[j := decodeMap c]) (Suc j) s"
  unfolding dq_symbol [OF assms(1)] using assms(2) by simp

lemma Decode_fails_at:
  assumes "t \<noteq> []" "decodeQuantum [0, 0, 0, 0] 0 t = Inl CorruptInputError"
  shows "isl (Decode t)"
  unfolding Decode_unfold [OF assms(1)] assms(2) by simp

lemma Decode_last_quantum:
  assumes "t \<noteq> []" "decodeQuantum [0, 0, 0, 0] 0 t = Inr (bs, [])"
  shows "\<not> isl (Decode t)"
  unfolding Decode_unfold [OF assms(1)] assms(2) by (simp add: Decode_Nil)

lemma Decode_quad:
  assumes nf: "\<forall>c\<in>set (c0 # c1 # c2 # c3 # t4). \<not> isNewline c"
    and ih: "isl (Decode t4) \<longleftrightarrow> \<not> well_padded t4"
  shows "isl (Decode (c0 # c1 # c2 # c3 # t4)) \<longleftrightarrow> \<not> well_padded (c0 # c1 # c2 # c3 # t4)"
proof -
  let ?t = "c0 # c1 # c2 # c3 # t4"
  let ?z = "[0, 0, 0, 0] :: byte list"
  have n0: "\<not> isNewline c0" and n1: "\<not> isNewline c1" and n2: "\<not> isNewline c2"
    and n3: "\<not> isNewline c3" and n4: "\<forall>c\<in>set t4. \<not> isNewline c"
    using nf by simp_all
  have ne: "?t \<noteq> []" by simp
  show ?thesis
  proof (cases "c0 \<in> set encodeI2P")
    case False
    have "decodeQuantum ?z 0 ?t = Inl CorruptInputError"
      using False n0 by (intro dq_bad_early) simp_all
    then have "isl (Decode ?t)" by (rule Decode_fails_at [OF ne])
    moreover have "\<not> well_padded ?t"
      using well_padded_symbols_then [of "[]" c0 "c1 # c2 # c3 # t4"] False by simp
    ultimately show ?thesis by simp
  next
    case s0: True
    have q0: "decodeQuantum ?z 0 ?t = decodeQuantum (?z[0 := decodeMap c0]) (Suc 0) (c1 # c2 # c3 # t4)"
      by (rule dq_sym_step [OF s0]) simp
    show ?thesis
    proof (cases "c1 \<in> set encodeI2P")
      case False
      have "decodeQuantum ?z 0 ?t = Inl CorruptInputError"
        unfolding q0 using False n1 by (intro dq_bad_early) simp_all
      then have "isl (Decode ?t)" by (rule Decode_fails_at [OF ne])
      moreover have "\<not> well_padded ?t"
        using well_padded_symbols_then [of "[c0]" c1 "c2 # c3 # t4"] False s0 by simp
      ultimately show ?thesis by simp
    next
      case s1: True
      let ?d1 = "?z[0 := decodeMap c0, Suc 0 := decodeMap c1]"
      have q1: "decodeQuantum ?z 0 ?t = decodeQuantum ?d1 (Suc (Suc 0)) (c2 # c3 # t4)"
        unfolding q0 by (rule dq_sym_step [OF s1]) simp
      show ?thesis
      proof (cases "c2 \<in> set encodeI2P")
        case False
        have wp: "well_padded ?t \<longleftrightarrow> c2 = padChar \<and> c3 # t4 = [padChar]"
          using well_padded_symbols_then [of "[c0, c1]" c2 "c3 # t4"] False s0 s1 by simp
        show ?thesis
        proof (cases "c2 = padChar")
          case True
          have q: "decodeQuantum ?z 0 ?t =
                (if c3 # t4 = [padChar] then Inr (quantumBytes ?d1 2, []) else Inl CorruptInputError)"
            unfolding q1 unfolding True using n3 n4 by (intro dq_pad_at_2) simp
          show ?thesis
          proof (cases "c3 # t4 = [padChar]")
            case True
            have "decodeQuantum ?z 0 ?t = Inr (quantumBytes ?d1 2, [])"
              unfolding q using True by simp
            then have "\<not> isl (Decode ?t)" by (rule Decode_last_quantum [OF ne])
            then show ?thesis using wp True \<open>c2 = padChar\<close> by simp
          next
            case False
            have "decodeQuantum ?z 0 ?t = Inl CorruptInputError"
              unfolding q using False by simp
            then have "isl (Decode ?t)" by (rule Decode_fails_at [OF ne])
            then show ?thesis using wp False by simp
          qed
        next
          case np: False
          have "decodeQuantum ?z 0 ?t = Inl CorruptInputError"
            unfolding q1 using False n2 np by (intro dq_other)
          then have "isl (Decode ?t)" by (rule Decode_fails_at [OF ne])
          then show ?thesis using wp np by simp
        qed
      next
        case s2: True
        let ?d2 = "?z[0 := decodeMap c0, Suc 0 := decodeMap c1, Suc (Suc 0) := decodeMap c2]"
        have q2: "decodeQuantum ?z 0 ?t = decodeQuantum ?d2 (Suc (Suc (Suc 0))) (c3 # t4)"
          unfolding q1 by (rule dq_sym_step [OF s2]) simp
        show ?thesis
        proof (cases "c3 \<in> set encodeI2P")
          case False
          have wp: "well_padded ?t \<longleftrightarrow> c3 = padChar \<and> t4 = []"
            using well_padded_symbols_then [of "[c0, c1, c2]" c3 t4] False s0 s1 s2 by simp
          show ?thesis
          proof (cases "c3 = padChar")
            case True
            have q: "decodeQuantum ?z 0 ?t =
                  (if t4 = [] then Inr (quantumBytes ?d2 3, []) else Inl CorruptInputError)"
              unfolding q2 unfolding True using n4 by (rule dq_pad_at_3)
            show ?thesis
            proof (cases "t4 = []")
              case True
              have "decodeQuantum ?z 0 ?t = Inr (quantumBytes ?d2 3, [])"
                unfolding q using True by simp
              then have "\<not> isl (Decode ?t)" by (rule Decode_last_quantum [OF ne])
              then show ?thesis using wp True \<open>c3 = padChar\<close> by simp
            next
              case False
              have "decodeQuantum ?z 0 ?t = Inl CorruptInputError"
                unfolding q using False by simp
              then have "isl (Decode ?t)" by (rule Decode_fails_at [OF ne])
              then show ?thesis using wp False by simp
            qed
          next
            case np: False
            have "decodeQuantum ?z 0 ?t = Inl CorruptInputError"
              unfolding q2 using False n3 np by (intro dq_other)
            then have "isl (Decode ?t)" by (rule Decode_fails_at [OF ne])
            then show ?thesis using wp np by simp
          qed
        next
          case s3: True
          have "isl (Decode ?t) \<longleftrightarrow> isl (Decode t4)"
            unfolding Decode_four [OF s0 s1 s2 s3] by (cases "Decode t4") simp_all
          then show ?thesis
            using ih well_padded_four_symbols [OF s0 s1 s2 s3, of t4] by simp
        qed
      qed
    qed
  qed
qed

lemma Decode_newline_free:
  "\<forall>c\<in>set t. \<not> isNewline c \<Longrightarrow> isl (Decode t) \<longleftrightarrow> \<not> well_padded t"
proof (induction t rule: length_induct)
  case (1 t)
  have shape: "t = [] \<or> (t \<noteq> [] \<and> length t < 4) \<or> (\<exists>c0 c1 c2 c3 t4. t = c0 # c1 # c2 # c3 # t4)"
  proof (cases "length t < 4")
    case True
    then show ?thesis by auto
  next
    case False
    then have "Suc (Suc (Suc (Suc 0))) \<le> length t" by simp
    then show ?thesis by (auto simp: Suc_le_length_iff)
  qed
  then consider "t = []" | "t \<noteq> []" "length t < 4"
    | c0 c1 c2 c3 t4 where "t = c0 # c1 # c2 # c3 # t4"
    by blast
  then show ?case
  proof cases
    case 1
    then show ?thesis by (simp add: Decode_Nil well_padded_Nil)
  next
    case 2
    then have "Decode t = Inl CorruptInputError"
      using "1.prems" by (intro Decode_short_fails)
    then show ?thesis using well_padded_short [OF 2] by simp
  next
    case (3 c0 c1 c2 c3 t4)
    have "isl (Decode t4) \<longleftrightarrow> \<not> well_padded t4"
      using "1.IH" "1.prems" 3 by simp
    then show ?thesis
      using Decode_quad [of c0 c1 c2 c3 t4] "1.prems" unfolding 3 by blast
  qed
qed

lemma Decode_fails_iff:
  "isl (Decode s) \<longleftrightarrow> \<not> well_padded (filter (\<lambda>c. \<not> isNewline c) s)"
proof -
  have "isl (Decode (filter (\<lambda>c. \<not> isNewline c) s))
        \<longleftrightarrow> \<not> well_padded (filter (\<lambda>c. \<not> isNewline c) s)"
    by (rule Decode_newline_free) simp
  then show ?thesis by (simp only: Decode_filter_newlines)
qed

section \<open>When decoding fails\<close>

text \<open>
  Claim C2, as amended. Go's decoder skips every line feed and carriage return of its
  input (\<open>Encoding.Decode\<close>: "New line characters are ignored"). \<open>fromI2PBase64\<close>
  fails exactly when the text that is left after dropping these characters contains a
  symbol outside the alphabet and \<open>=\<close>, or has a length that is not a multiple of four,
  or has padding that is anything other than one \<open>=\<close> or two \<open>=\<close> closing the text:
  an \<open>=\<close> with any other symbol after it fails, and so does a run of three or more
  \<open>=\<close>, as in \<open>A===\<close>, \<open>====\<close> and \<open>AAAA====\<close>. The empty text decodes to the empty
  byte sequence.
\<close>

theorem C2_decode_fails_iff:
  "(fromI2PBase64 text = Inl CorruptInputError
      \<longleftrightarrow> \<not> well_padded (filter (\<lambda>c. \<not> isNewline c) text))
   \<and> fromI2PBase64 [] = Inr []"
proof -
  have "fromI2PBase64 text = Inl CorruptInputError \<longleftrightarrow> isl (Decode text)"
    unfolding fromI2PBase64_def
  proof (cases "Decode text")
    case (Inl e)
    then show "Decode text = Inl CorruptInputError \<longleftrightarrow> isl (Decode text)"
      by (cases e) simp
  next
    case (Inr bs)
    then show "Decode text = Inl CorruptInputError \<longleftrightarrow> isl (Decode text)" by simp
  qed
  then show ?thesis
    by (simp add: Decode_fails_iff fromI2PBase64_def Decode_Nil)
qed

theorem C2_decode_fails_iff_witness:
  "fromI2PBase64 ''AA=A'' = Inl CorruptInputError
   \<and> \<not> well_padded (filter (\<lambda>c. \<not> isNewline c) ''AA=A'')
   \<and> fromI2PBase64 ''A==='' = Inl CorruptInputError
   \<and> fromI2PBase64 ''===='' = Inl CorruptInputError
   \<and> fromI2PBase64 ''AAAA===='' = Inl CorruptInputError
   \<and> fromI2PBase64 ([CR, LF] @ ''AAA='') \<noteq> Inl CorruptInputError
   \<and> well_padded (filter (\<lambda>c. \<not> isNewline c) ([CR, LF] @ ''AAA=''))
   \<and> fromI2PBase64 ''AA=='' \<noteq> Inl CorruptInputError
   \<and> fromI2PBase64 [] = Inr []"
proof -
  have a: "\<not> well_padded (filter (\<lambda>c. \<not> isNewline c) ''AA=A'')"
    by (simp add: well_padded_def isNewline_def padChar_def)
  have a3: "\<not> well_padded (filter (\<lambda>c. \<not> isNewline c) ''A==='')"
    by (simp add: well_padded_def isNewline_def padChar_def)
  have a4: "\<not> well_padded (filter (\<lambda>c. \<not> isNewline c) ''===='')"
    by (simp add: well_padded_def isNewline_def padChar_def)
  have a8: "\<not> well_padded (filter (\<lambda>c. \<not> isNewline c) ''AAAA===='')"
    by (simp add: well_padded_def isNewline_def padChar_def)
  have b: "well_padded (filter (\<lambda>c. \<not> isNewline c) ([CR, LF] @ ''AAA=''))"
    by (simp add: well_padded_def isNewline_def padChar_def encodeI2P_def)
  have b2: "well_padded (filter (\<lambda>c. \<not> isNewline c) ''AA=='')"
    by (simp add: well_padded_def isNewline_def padChar_def encodeI2P_def)
  show ?thesis
    using a a3 a4 a8 b b2
      C2_decode_fails_iff [of "''AA=A''"] C2_decode_fails_iff [of "''A===''"]
      C2_decode_fails_iff [of "''====''"] C2_decode_fails_iff [of "''AAAA====''"]
      C2_decode_fails_iff [of "[CR, LF] @ ''AAA=''"] C2_decode_fails_iff [of "''AA==''"]
    by simp
qed

text \<open>
  Claim C2 as stated fails on text that ends in a line feed: \<open>AAAA\<close> followed by a line
  feed contains a symbol that is neither in the alphabet nor \<open>=\<close>, and its length, five,
  is no padded length, yet it decodes to three zero bytes.
\<close>

theorem C2_counterexample:
  "fromI2PBase64 (''AAAA'' @ [LF]) = Inr [0, 0, 0]
   \<and> LF \<in> set (''AAAA'' @ [LF]) \<and> LF \<notin> set encodeI2P \<and> LF \<noteq> padChar
   \<and> length (''AAAA'' @ [LF]) mod 4 \<noteq> 0
   \<and> \<not> well_padded (''AAAA'' @ [LF])"
proof -
  have "filter (\<lambda>c. \<not> isNewline c) (''AAAA'' @ [LF]) = Encode [0, 0, 0]"
    by (simp add: isNewline_def Let_def enc_0)
  then have "Decode (''AAAA'' @ [LF]) = Decode (Encode [0, 0, 0])"
    using Decode_filter_newlines [of "''AAAA'' @ [LF]"] by (simp only:)
  then have "fromI2PBase64 (''AAAA'' @ [LF]) = Inr [0, 0, 0]"
    by (simp only: fromI2PBase64_def Decode_Encode)
  moreover have "\<not> well_padded (''AAAA'' @ [LF])"
    by (simp add: well_padded_def)
  ultimately show ?thesis
    by (simp add: special_not_in_alphabet padChar_def)
qed

end
